theory Spec2Isabelle
  imports Complex_Main
begin

section \<open>JavaScript numbers and dates\<close>

text \<open>
  The controllers compute with JavaScript numbers, which are IEEE doubles. The result
  of an arithmetic operation is the exact result rounded to the nearest number with a
  significand of 53 bits, a tie going to the even significand. \<open>binade r\<close> is the
  exponent \<open>e\<close> with \<open>2^e \<le> r < 2^(e+1)\<close> of a positive \<open>r\<close>, and \<open>double_of r\<close>
  is \<open>r\<close> rounded in this way. The exponent is not bounded: overflow to \<open>Infinity\<close>,
  which sets in at 2^1024, the subnormal numbers below 2^-1022 and the sign of zero are
  abstracted away.
\<close>

function binade_ge1 :: "rat \<Rightarrow> int" where
  "binade_ge1 r = (if r < 2 then 0 else binade_ge1 (r / 2) + 1)"
  by pat_completeness auto
termination
proof (relation "measure (\<lambda>r. nat \<lfloor>r\<rfloor>)")
  show "wf (measure (\<lambda>r::rat. nat \<lfloor>r\<rfloor>))" by simp
next
  fix r :: rat
  assume "\<not> r < 2"
  hence r: "2 \<le> r" by simp
  hence "r / 2 \<le> r - 1" by simp
  hence "\<lfloor>r / 2\<rfloor> \<le> \<lfloor>r - 1\<rfloor>" by (rule floor_mono)
  moreover have "2 \<le> \<lfloor>r\<rfloor>" using r by (simp add: le_floor_iff)
  ultimately show "(r / 2, r) \<in> measure (\<lambda>r. nat \<lfloor>r\<rfloor>)" by simp
qed

function binade_lt1 :: "rat \<Rightarrow> int" where
  "binade_lt1 r = (if r \<le> 0 \<or> 1 \<le> r then 0 else binade_lt1 (2 * r) - 1)"
  by pat_completeness auto
termination
proof (relation "measure (\<lambda>r. nat \<lceil>1 / r\<rceil>)")
  show "wf (measure (\<lambda>r::rat. nat \<lceil>1 / r\<rceil>))" by simp
next
  fix r :: rat
  assume "\<not> (r \<le> 0 \<or> 1 \<le> r)"
  hence r: "0 < r" "r < 1" by simp_all
  define n where "n = \<lceil>1 / r\<rceil>"
  have "1 < 1 / r" using r by simp
  hence n2: "2 \<le> n" unfolding n_def by (simp add: less_ceiling_iff le_ceiling_iff)
  have "1 / r \<le> of_int n" unfolding n_def by (rule le_of_int_ceiling)
  hence "1 / (2 * r) \<le> of_int n / 2" by simp
  also have "\<dots> \<le> of_int (n - 1)" using n2 by simp
  finally have "1 / (2 * r) \<le> of_int (n - 1)" .
  hence "\<lceil>1 / (2 * r)\<rceil> \<le> n - 1" by (rule ceiling_le)
  hence "nat \<lceil>1 / (2 * r)\<rceil> < nat n" using n2 by linarith
  thus "(2 * r, r) \<in> measure (\<lambda>r. nat \<lceil>1 / r\<rceil>)"
    unfolding n_def by (simp only: in_measure)
qed

declare binade_ge1.simps [simp del] binade_lt1.simps [simp del]

definition binade :: "rat \<Rightarrow> int" where
  "binade r = (if 1 \<le> r then binade_ge1 r else binade_lt1 r)"

definition round_half_even :: "rat \<Rightarrow> int" where
  "round_half_even x =
     (let f = \<lfloor>x\<rfloor>; d = x - of_int f
      in if d < 1 / 2 then f else if 1 / 2 < d then f + 1 else if even f then f else f + 1)"

definition double_of :: "rat \<Rightarrow> rat" where
  "double_of r =
     (if r = 0 then 0
      else let q = binade \<bar>r\<bar> - 52
           in of_int (round_half_even (r / 2 powi q)) * 2 powi q)"

text \<open>
  A number is a finite value or one of the three special values. The finite numbers of
  the program are the doubles, the rationals \<open>r\<close> with \<open>double_of r = r\<close>; a numeric
  literal of JavaScript or of JSON denotes the double nearest to it. Sum, product and
  quotient round their operands, then the exact result: on doubles this is the
  operation of ECMAScript, and \<open>Fin (1 / 10)\<close> can be written for the number \<open>0.1\<close>.
  Comparison and negation involve no rounding. Every operator follows ECMAScript on
  the special values.
\<close>

datatype jsnum = Fin rat | PInf | NInf | NaN

fun isNaN :: "jsnum \<Rightarrow> bool" where
  "isNaN NaN = True"
| "isNaN _ = False"

fun isFinite :: "jsnum \<Rightarrow> bool" where
  "isFinite (Fin a) = True"
| "isFinite _ = False"

text \<open>Truthiness of a number: \<open>0\<close> and \<open>NaN\<close> are falsy (\<open>!x\<close>, \<open>x || d\<close>, \<open>x ? a : b\<close>).\<close>

definition truthy :: "jsnum \<Rightarrow> bool" where
  "truthy x = (x \<noteq> NaN \<and> x \<noteq> Fin 0)"

definition js_or :: "jsnum \<Rightarrow> jsnum \<Rightarrow> jsnum" where
  "js_or x d = (if truthy x then x else d)"

fun js_lt :: "jsnum \<Rightarrow> jsnum \<Rightarrow> bool" where
  "js_lt (Fin a) (Fin b) = (a < b)"
| "js_lt (Fin a) PInf = True"
| "js_lt NInf (Fin b) = True"
| "js_lt NInf PInf = True"
| "js_lt _ _ = False"

fun js_le :: "jsnum \<Rightarrow> jsnum \<Rightarrow> bool" where
  "js_le (Fin a) (Fin b) = (a \<le> b)"
| "js_le (Fin a) PInf = True"
| "js_le NInf (Fin b) = True"
| "js_le NInf PInf = True"
| "js_le NInf NInf = True"
| "js_le PInf PInf = True"
| "js_le _ _ = False"

fun js_neg :: "jsnum \<Rightarrow> jsnum" where
  "js_neg (Fin a) = Fin (- a)"
| "js_neg PInf = NInf"
| "js_neg NInf = PInf"
| "js_neg NaN = NaN"

fun js_add :: "jsnum \<Rightarrow> jsnum \<Rightarrow> jsnum" where
  "js_add (Fin a) (Fin b) = Fin (double_of (double_of a + double_of b))"
| "js_add NaN _ = NaN"
| "js_add _ NaN = NaN"
| "js_add PInf NInf = NaN"
| "js_add NInf PInf = NaN"
| "js_add PInf _ = PInf"
| "js_add _ PInf = PInf"
| "js_add NInf _ = NInf"
| "js_add _ NInf = NInf"

definition js_sub :: "jsnum \<Rightarrow> jsnum \<Rightarrow> jsnum" where
  "js_sub x y = js_add x (js_neg y)"

fun js_sgn :: "jsnum \<Rightarrow> rat" where
  "js_sgn (Fin a) = sgn a"
| "js_sgn PInf = 1"
| "js_sgn NInf = - 1"
| "js_sgn NaN = 0"

definition inf_of_sign :: "rat \<Rightarrow> jsnum" where
  "inf_of_sign r = (if 0 < r then PInf else if r < 0 then NInf else NaN)"

fun js_mul :: "jsnum \<Rightarrow> jsnum \<Rightarrow> jsnum" where
  "js_mul (Fin a) (Fin b) = Fin (double_of (double_of a * double_of b))"
| "js_mul NaN _ = NaN"
| "js_mul _ NaN = NaN"
| "js_mul x y = inf_of_sign (js_sgn x * js_sgn y)"


text \<open>\<open>Math.max(x, y)\<close>: \<open>NaN\<close> as soon as one argument is \<open>NaN\<close>.\<close>

definition Math_max :: "jsnum \<Rightarrow> jsnum \<Rightarrow> jsnum" where
  "Math_max x y = (if isNaN x \<or> isNaN y then NaN else if js_lt x y then y else x)"



text \<open>
  A \<open>Date\<close> holds milliseconds since the epoch or is invalid. \<open>new Date()\<close> is
  always valid and is passed to each handler as the integer \<open>now\<close>. \<open>new Date(x)\<close>
  clips \<open>x\<close>: a non-finite value or one beyond 8.64e15 in magnitude gives an invalid
  date, any other is truncated towards zero.
\<close>

datatype date = Date int | InvalidDate

fun new_Date :: "jsnum \<Rightarrow> date" where
  "new_Date (Fin r) =
     (if 8640000000000000 < \<bar>r\<bar> then InvalidDate
      else Date (if 0 \<le> r then \<lfloor>r\<rfloor> else \<lceil>r\<rceil>))"
| "new_Date _ = InvalidDate"

text \<open>\<open>new Date() < d\<close>: a comparison with an invalid date is false.\<close>

fun date_lt :: "int \<Rightarrow> date \<Rightarrow> bool" where
  "date_lt n (Date u) = (n < u)"
| "date_lt n InvalidDate = False"

section \<open>Documents and the database\<close>

text \<open>
  \<open>IPool\<close> and \<open>PoolSchema\<close> of \<open>models/pool.ts\<close>. The schema option
  \<open>timestamps\<close> makes the library set \<open>updatedAt\<close> to the current time whenever a
  pool is saved. \<open>PoolSchema\<close> lists each declared path with its \<open>required\<close> flag
  and its numeric default.
\<close>

record pool =
  name :: string
  type :: string
  apy :: jsnum
  minStake :: jsnum
  lockPeriod :: jsnum
  liquidity :: jsnum
  totalStaked :: jsnum
  createdAt :: int
  updatedAt :: int

definition PoolSchema :: "(string \<times> bool \<times> jsnum option) list" where
  "PoolSchema =
     [(''name'', True, None),
      (''type'', True, None),
      (''apy'', True, None),
      (''minStake'', False, Some (Fin (1 / 10))),
      (''lockPeriod'', False, Some (Fin 0)),
      (''liquidity'', True, Some (Fin 0)),
      (''totalStaked'', False, Some (Fin 0))]"

definition schema_default :: "string \<Rightarrow> jsnum option" where
  "schema_default path = (case map_of PoolSchema path of Some (_, d) \<Rightarrow> d | None \<Rightarrow> None)"

text \<open>
  \<open>ITransaction\<close> of \<open>models/transaction.ts\<close>. The \<open>type\<close> string only ever holds
  one of the four literals the controllers write.
\<close>

datatype tx_type = Stake | Unstake | Deposit | Withdraw

record transaction =
  transactionId :: string
  originalTransactionId :: "string option"
  type :: tx_type
  amount :: jsnum
  timestamp :: int
  userId :: string
  poolId :: string
  unlockTime :: "date option"

text \<open>
  The three collections. Pools are keyed by their document id, which a request names
  as the pool list shows it; the transaction collection is kept in insertion order;
  \<open>users\<close> holds the \<open>_id\<close> of every user document.
\<close>

record db =
  pools :: "string \<rightharpoonup> pool"
  transactions :: "transaction list"
  users :: "string set"

definition empty_db :: "string set \<Rightarrow> db" where
  "empty_db us = \<lparr>pools = Map.empty, transactions = [], users = us\<rparr>"

text \<open>
  The \<open>_id\<close> of a document is an \<open>ObjectId\<close>, written as 24 hexadecimal digits.
  \<open>User.findById(id)\<close> casts \<open>id\<close> to an \<open>ObjectId\<close> before it queries; the cast of
  a string of any other form throws. The \<open>userId\<close> that \<open>authController\<close> gives a
  user and signs into the token, and that \<open>auth.ts\<close> hands to the handlers as
  \<open>req.user.userId\<close>, is a \<open>uuidv4()\<close>: 36 characters, four of them hyphens.
\<close>

definition is_hex_digit :: "char \<Rightarrow> bool" where
  "is_hex_digit c = (c \<in> set ''0123456789abcdefABCDEF'')"

definition is_ObjectId :: "string \<Rightarrow> bool" where
  "is_ObjectId x = (length x = 24 \<and> list_all is_hex_digit x)"

text \<open>
  Responses. Each constructor stands for one status and message of the controllers:
  \<open>ValidationError\<close> for the 400 on an invalid amount or missing pool fields,
  \<open>NotFoundError\<close> for the three 404s, \<open>BelowMinimumStakeError\<close> for the 400 that
  names \<open>pool.minStake\<close>, \<open>AlreadyUnstakedError\<close> and \<open>StillLockedError\<close> (which
  carries \<open>unlockTime\<close>) for the two 400s of unstaking, \<open>InsufficientLiquidityError\<close>
  for the 400 of a withdrawal, and \<open>ServerError\<close> for the 500 of the \<open>catch\<close> block.
\<close>

datatype entity = PoolEntity | UserEntity | StakeEntity

datatype error =
    ValidationError
  | NotFoundError entity
  | BelowMinimumStakeError jsnum
  | AlreadyUnstakedError
  | StillLockedError date
  | InsufficientLiquidityError
  | ServerError

text \<open>
  \<open>transaction.save()\<close>: \<open>transactionId\<close> is declared \<open>unique\<close>, so saving a document
  whose id is already present throws, and the handler answers 500. The library also
  refuses to save an invalid \<open>Date\<close>; the one date a handler computes is the
  \<open>unlockTime\<close> of \<open>stakeTokens\<close>, where this is written out. The other casts and
  validators of the library are not modelled: a request carries a number where the
  schema declares a number, and a \<open>NaN\<close> that a handler computes from an infinite
  amount is stored as it is.
\<close>

definition save_transaction :: "db \<Rightarrow> transaction \<Rightarrow> db option" where
  "save_transaction s t =
     (if transactionId t \<in> set (map transactionId (transactions s)) then None
      else Some (s\<lparr>transactions := transactions s @ [t]\<rparr>))"

definition save_pool :: "db \<Rightarrow> string \<Rightarrow> pool \<Rightarrow> db" where
  "save_pool s pid p = s\<lparr>pools := (pools s)(pid \<mapsto> p)\<rparr>"

text \<open>
  \<open>pool.save()\<close> after an assignment to \<open>pool.totalStaked\<close>: the library writes the
  paths that changed, \<open>totalStaked\<close> and \<open>updatedAt\<close>, into the stored document, and
  throws if that document is no longer there.
\<close>

definition save_totalStaked :: "db \<Rightarrow> string \<Rightarrow> pool \<Rightarrow> db option" where
  "save_totalStaked s pid p =
     (case pools s pid of
        None \<Rightarrow> None
      | Some stored \<Rightarrow>
          Some (save_pool s pid (stored\<lparr>totalStaked := totalStaked p, updatedAt := updatedAt p\<rparr>)))"

section \<open>Pool controller\<close>

text \<open>
  \<open>createPool\<close>. The body fields may be absent (\<open>None\<close>); a present name or type is
  a string and a present number is a number. \<open>pid\<close> is the id the driver gives the
  new document; were it in use already, the save would throw. \<open>liquidity\<close> is not
  passed to the constructor and takes the schema default.
\<close>

definition createPool ::
  "db \<Rightarrow> int \<Rightarrow> string \<Rightarrow> string option \<Rightarrow> string option \<Rightarrow> jsnum option \<Rightarrow>
   jsnum option \<Rightarrow> jsnum option \<Rightarrow> (error + pool) \<times> db" where
  "createPool s now pid name' type' apy' minStake' lockPeriod' =
     (if name' = None \<or> name' = Some [] \<or> type' = None \<or> type' = Some []
         \<or> apy' = None \<or> \<not> truthy (the apy')
      then (Inl ValidationError, s)
      else
        let p = \<lparr>name = the name',
                 pool.type = the type',
                 apy = the apy',
                 minStake = (case minStake' of None \<Rightarrow> Fin (1 / 10) | Some m \<Rightarrow> js_or m (Fin (1 / 10))),
                 lockPeriod = (case lockPeriod' of None \<Rightarrow> Fin 0 | Some l \<Rightarrow> js_or l (Fin 0)),
                 liquidity = the (schema_default ''liquidity''),
                 totalStaked = Fin 0,
                 createdAt = now,
                 updatedAt = now\<rparr>
        in if pid \<in> dom (pools s) then (Inl ServerError, s)
           else (Inr p, save_pool s pid p))"

definition depositToPool ::
  "db \<Rightarrow> int \<Rightarrow> string \<Rightarrow> string \<Rightarrow> string \<Rightarrow> jsnum \<Rightarrow> (error + transaction \<times> pool) \<times> db" where
  "depositToPool s now uuid user poolId' amount' =
     (if isNaN amount' \<or> js_le amount' (Fin 0) then (Inl ValidationError, s)
      else case pools s poolId' of
        None \<Rightarrow> (Inl (NotFoundError PoolEntity), s)
      | Some pool \<Rightarrow>
          let t = \<lparr>transactionId = uuid, originalTransactionId = None, type = Deposit,
                   amount = amount', timestamp = now, userId = user, poolId = poolId',
                   unlockTime = None\<rparr>
          in (case save_transaction s t of
                None \<Rightarrow> (Inl ServerError, s)
              | Some s1 \<Rightarrow>
                  let pool' = pool\<lparr>liquidity := js_add (liquidity pool) amount',
                                   updatedAt := now\<rparr>
                  in (Inr (t, pool'), save_pool s1 poolId' pool')))"

definition withdrawFromPool ::
  "db \<Rightarrow> int \<Rightarrow> string \<Rightarrow> string \<Rightarrow> string \<Rightarrow> jsnum \<Rightarrow> (error + transaction \<times> pool) \<times> db" where
  "withdrawFromPool s now uuid user poolId' amount' =
     (if isNaN amount' \<or> js_le amount' (Fin 0) then (Inl ValidationError, s)
      else case pools s poolId' of
        None \<Rightarrow> (Inl (NotFoundError PoolEntity), s)
      | Some pool \<Rightarrow>
          if js_lt (liquidity pool) amount' then (Inl InsufficientLiquidityError, s)
          else
            let t = \<lparr>transactionId = uuid, originalTransactionId = None, type = Withdraw,
                     amount = amount', timestamp = now, userId = user, poolId = poolId',
                     unlockTime = None\<rparr>
            in (case save_transaction s t of
                  None \<Rightarrow> (Inl ServerError, s)
                | Some s1 \<Rightarrow>
                    let pool' = pool\<lparr>liquidity := js_sub (liquidity pool) amount',
                                     updatedAt := now\<rparr>
                    in (Inr (t, pool'), save_pool s1 poolId' pool')))"

definition updatePool ::
  "db \<Rightarrow> int \<Rightarrow> string \<Rightarrow> string option \<Rightarrow> jsnum option \<Rightarrow> jsnum option \<Rightarrow>
   jsnum option \<Rightarrow> (error + pool) \<times> db" where
  "updatePool s now poolId' name' apy' minStake' lockPeriod' =
     (case pools s poolId' of
        None \<Rightarrow> (Inl (NotFoundError PoolEntity), s)
      | Some pool \<Rightarrow>
          let p1 = (if name' \<noteq> None \<and> name' \<noteq> Some [] then pool\<lparr>name := the name'\<rparr> else pool);
              p2 = (case apy' of Some a \<Rightarrow> p1\<lparr>apy := a\<rparr> | None \<Rightarrow> p1);
              p3 = (case minStake' of Some m \<Rightarrow> p2\<lparr>minStake := m\<rparr> | None \<Rightarrow> p2);
              p4 = (case lockPeriod' of Some l \<Rightarrow> p3\<lparr>lockPeriod := l\<rparr> | None \<Rightarrow> p3);
              p5 = p4\<lparr>updatedAt := now\<rparr>
          in (Inr p5, save_pool s poolId' p5))"

definition deletePool :: "db \<Rightarrow> string \<Rightarrow> (error + unit) \<times> db" where
  "deletePool s poolId' =
     (case pools s poolId' of
        None \<Rightarrow> (Inl (NotFoundError PoolEntity), s)
      | Some pool \<Rightarrow> (Inr (), s\<lparr>pools := (pools s)(poolId' := None)\<rparr>))"

section \<open>Staking controller\<close>

text \<open>
  \<open>Transaction.findOne\<close> returns the first document of the collection that matches the
  filter. The three filters of the staking controller:
\<close>

definition find_stake :: "db \<Rightarrow> string \<Rightarrow> string \<Rightarrow> transaction option" where
  "find_stake s tid user =
     find (\<lambda>t. transactionId t = tid \<and> transaction.type t = Stake \<and> userId t = user)
       (transactions s)"

definition find_unstake_of_user :: "db \<Rightarrow> string \<Rightarrow> string \<Rightarrow> transaction option" where
  "find_unstake_of_user s tid user =
     find (\<lambda>t. originalTransactionId t = Some tid \<and> transaction.type t = Unstake \<and> userId t = user)
       (transactions s)"


text \<open>
  The two handlers that write to the ledger are \<open>async\<close>: each \<open>await\<close> lets another
  request run. Each is given in two halves, the reads up to the first write and the
  writes, so that overlapping requests can be followed; the handler itself is the two
  halves run without interruption.

  \<open>stakeTokens\<close>, lines 516-540: the amount check, the pool lookup, the minimum and
  the user lookup. The user lookup is \<open>User.findById(userId)\<close>.
\<close>

definition stake_read :: "db \<Rightarrow> string \<Rightarrow> string \<Rightarrow> jsnum \<Rightarrow> error + pool" where
  "stake_read s user poolId' amount' =
     (if \<not> truthy amount' \<or> isNaN amount' \<or> js_le amount' (Fin 0) then Inl ValidationError
      else case pools s poolId' of
        None \<Rightarrow> Inl (NotFoundError PoolEntity)
      | Some pool \<Rightarrow>
          if js_lt amount' (minStake pool) then Inl (BelowMinimumStakeError (minStake pool))
          else if \<not> is_ObjectId user then Inl ServerError
          else if user \<notin> users s then Inl (NotFoundError UserEntity)
          else Inr pool)"

text \<open>
  \<open>stakeTokens\<close>, lines 542-566, with the pool document read before: the stake event
  is saved, then \<open>totalStaked\<close> is computed from the pool as it was read, and saved.
\<close>

definition stake_write ::
  "db \<Rightarrow> int \<Rightarrow> string \<Rightarrow> string \<Rightarrow> string \<Rightarrow> jsnum \<Rightarrow> pool \<Rightarrow>
   (error + transaction \<times> pool) \<times> db" where
  "stake_write s now uuid user poolId' amount' pool =
     (let t = \<lparr>transactionId = uuid, originalTransactionId = None, type = Stake,
               amount = amount', timestamp = now, userId = user, poolId = poolId',
               unlockTime =
                 (if truthy (lockPeriod pool)
                  then Some (new_Date (js_add (Fin (of_int now))
                               (js_mul (lockPeriod pool) (Fin 86400000))))
                  else None)\<rparr>
      in if unlockTime t = Some InvalidDate then (Inl ServerError, s)
         else (case save_transaction s t of
                 None \<Rightarrow> (Inl ServerError, s)
               | Some s1 \<Rightarrow>
                   let pool' = pool\<lparr>totalStaked := js_add (js_or (totalStaked pool) (Fin 0)) amount',
                                    updatedAt := now\<rparr>
                   in (case save_totalStaked s1 poolId' pool' of
                         None \<Rightarrow> (Inl ServerError, s1)
                       | Some s2 \<Rightarrow> (Inr (t, pool'), s2))))"

definition stakeTokens ::
  "db \<Rightarrow> int \<Rightarrow> string \<Rightarrow> string \<Rightarrow> string \<Rightarrow> jsnum \<Rightarrow> (error + transaction \<times> pool) \<times> db" where
  "stakeTokens s now uuid user poolId' amount' =
     (case stake_read s user poolId' amount' of
        Inl e \<Rightarrow> (Inl e, s)
      | Inr pool \<Rightarrow> stake_write s now uuid user poolId' amount' pool)"

text \<open>
  \<open>unstakeTokens\<close>, lines 580-613: the stake lookup, the check for an unstake event
  of the caller, the lock check and the pool lookup.
\<close>

definition unstake_read :: "db \<Rightarrow> int \<Rightarrow> string \<Rightarrow> string \<Rightarrow> error + transaction \<times> pool" where
  "unstake_read s now user tid =
     (case find_stake s tid user of
        None \<Rightarrow> Inl (NotFoundError StakeEntity)
      | Some stakeTransaction \<Rightarrow>
          (case find_unstake_of_user s tid user of
             Some unstakeCheck \<Rightarrow> Inl AlreadyUnstakedError
           | None \<Rightarrow>
               (case (case unlockTime stakeTransaction of
                        Some d \<Rightarrow> if date_lt now d then Some d else None
                      | None \<Rightarrow> None) of
                 Some d \<Rightarrow> Inl (StillLockedError d)
               | None \<Rightarrow>
                   (case pools s (poolId stakeTransaction) of
                      None \<Rightarrow> Inl (NotFoundError PoolEntity)
                    | Some pool \<Rightarrow> Inr (stakeTransaction, pool)))))"

text \<open>
  \<open>unstakeTokens\<close>, lines 615-638, with the stake event and the pool document read
  before.
\<close>

definition unstake_write ::
  "db \<Rightarrow> int \<Rightarrow> string \<Rightarrow> string \<Rightarrow> string \<Rightarrow> transaction \<Rightarrow> pool \<Rightarrow>
   (error + transaction \<times> pool) \<times> db" where
  "unstake_write s now uuid user tid stakeTransaction pool =
     (let t = \<lparr>transactionId = uuid, originalTransactionId = Some tid,
               type = Unstake, amount = amount stakeTransaction,
               timestamp = now, userId = user,
               poolId = poolId stakeTransaction, unlockTime = None\<rparr>
      in (case save_transaction s t of
            None \<Rightarrow> (Inl ServerError, s)
          | Some s1 \<Rightarrow>
              let pool' = pool\<lparr>totalStaked :=
                            Math_max (Fin 0)
                              (js_sub (js_or (totalStaked pool) (Fin 0))
                                 (amount stakeTransaction)),
                          updatedAt := now\<rparr>
              in (case save_totalStaked s1 (poolId stakeTransaction) pool' of
                    None \<Rightarrow> (Inl ServerError, s1)
                  | Some s2 \<Rightarrow> (Inr (t, pool'), s2))))"

definition unstakeTokens ::
  "db \<Rightarrow> int \<Rightarrow> string \<Rightarrow> string \<Rightarrow> string \<Rightarrow> (error + transaction \<times> pool) \<times> db" where
  "unstakeTokens s now uuid user tid =
     (case unstake_read s now user tid of
        Inl e \<Rightarrow> (Inl e, s)
      | Inr (stakeTransaction, pool) \<Rightarrow>
          unstake_write s now uuid user tid stakeTransaction pool)"



record rewards_response =
  stakeAmount :: jsnum
  stakingDurationDays :: jsnum
  apy :: jsnum
  rewards :: jsnum
  isUnstaked :: bool


section \<open>Requests handled one at a time\<close>

text \<open>
  A request carries what the handler reads from the HTTP request, an amount being a
  JSON number; the one clock reading and the fresh identifier the handler draws are
  given with it. \<open>serial_run\<close> handles
  the requests of a list one after the other, each handler running to its end before
  the next one starts: these are the executions in which no two requests overlap.
\<close>

datatype request =
    StakeReq string string jsnum
  | UnstakeReq string string
  | DepositReq string string jsnum
  | WithdrawReq string string jsnum
  | CreatePoolReq "string option" "string option" "jsnum option" "jsnum option" "jsnum option"
  | UpdatePoolReq string "string option" "jsnum option" "jsnum option" "jsnum option"
  | DeletePoolReq string

fun handle :: "db \<Rightarrow> int \<times> string \<times> request \<Rightarrow> db" where
  "handle s (now, uuid, StakeReq user p a) = snd (stakeTokens s now uuid user p a)"
| "handle s (now, uuid, UnstakeReq user tid) = snd (unstakeTokens s now uuid user tid)"
| "handle s (now, uuid, DepositReq user p a) = snd (depositToPool s now uuid user p a)"
| "handle s (now, uuid, WithdrawReq user p a) = snd (withdrawFromPool s now uuid user p a)"
| "handle s (now, uuid, CreatePoolReq n t a m l) = snd (createPool s now uuid n t a m l)"
| "handle s (now, uuid, UpdatePoolReq p n a m l) = snd (updatePool s now p n a m l)"
| "handle s (now, uuid, DeletePoolReq p) = snd (deletePool s p)"

definition serial_run :: "db \<Rightarrow> (int \<times> string \<times> request) list \<Rightarrow> db" where
  "serial_run s rs = foldl handle s rs"

section \<open>Quantities read off the ledger\<close>

text \<open>
  An unstake event references the stake whose \<open>transactionId\<close> it carries as
  \<open>originalTransactionId\<close>. A stake event is open while no unstake event references it.
\<close>

definition references :: "string \<Rightarrow> transaction \<Rightarrow> bool" where
  "references tid u = (transaction.type u = Unstake \<and> originalTransactionId u = Some tid)"

definition is_open :: "transaction list \<Rightarrow> transaction \<Rightarrow> bool" where
  "is_open L e = (\<not> (\<exists>u\<in>set L. references (transactionId e) u))"

definition open_stakes :: "transaction list \<Rightarrow> string \<Rightarrow> transaction list" where
  "open_stakes L p = filter (\<lambda>e. transaction.type e = Stake \<and> poolId e = p \<and> is_open L e) L"

definition open_stake_count :: "transaction list \<Rightarrow> string \<Rightarrow> nat" where
  "open_stake_count L p = length (open_stakes L p)"

fun num :: "jsnum \<Rightarrow> rat" where
  "num (Fin a) = a"
| "num _ = 0"

definition staked_sum :: "transaction list \<Rightarrow> string \<Rightarrow> rat" where
  "staked_sum L p =
     sum_list (map (\<lambda>e. num (amount e)) (filter (\<lambda>e. transaction.type e = Stake \<and> poolId e = p) L))"

definition unstaked_sum :: "transaction list \<Rightarrow> string \<Rightarrow> rat" where
  "unstaked_sum L p =
     sum_list (map (\<lambda>u. num (amount u))
       (filter (\<lambda>u. transaction.type u = Unstake
                  \<and> (\<exists>e\<in>set L. transaction.type e = Stake \<and> poolId e = p
                        \<and> originalTransactionId u = Some (transactionId e))) L))"

definition open_sum :: "transaction list \<Rightarrow> string \<Rightarrow> rat" where
  "open_sum L p = sum_list (map (\<lambda>e. num (amount e)) (open_stakes L p))"

definition staked_total :: "transaction list \<Rightarrow> rat" where
  "staked_total L =
     sum_list (map (\<lambda>e. num (amount e)) (filter (\<lambda>e. transaction.type e = Stake) L))"

text \<open>
  The shape of a ledger that the handlers maintain: identifiers are unique, every
  unstake event copies user, pool and amount of a stake event it references, and no two
  unstake events reference the same stake.
\<close>

definition ledger_ok :: "transaction list \<Rightarrow> bool" where
  "ledger_ok L =
     (distinct (map transactionId L)
      \<and> (\<forall>u\<in>set L. transaction.type u = Unstake \<longrightarrow>
            (\<exists>e\<in>set L. transaction.type e = Stake
               \<and> originalTransactionId u = Some (transactionId e)
               \<and> userId u = userId e \<and> poolId u = poolId e \<and> amount u = amount e))
      \<and> (\<forall>u\<in>set L. \<forall>v\<in>set L.
            transaction.type u = Unstake \<and> transaction.type v = Unstake
            \<and> originalTransactionId u = originalTransactionId v \<longrightarrow> u = v))"

section \<open>The reward in the words of the specification\<close>







definition double_reward :: "rat \<Rightarrow> rat \<Rightarrow> rat \<Rightarrow> rat" where
  "double_reward amount' apy' elapsedDays =
     double_of (double_of (double_of (double_of amount' * double_of apy') / 100)
                * double_of (double_of elapsedDays / 365))"

section \<open>Example databases\<close>

definition demo_pool :: pool where
  "demo_pool = \<lparr>name = ''B'', pool.type = ''basic'', apy = Fin (39 / 5), minStake = Fin 1,
     lockPeriod = Fin 0, liquidity = Fin 0, totalStaked = Fin 0, createdAt = 0, updatedAt = 0\<rparr>"

definition demo_db :: db where
  "demo_db = \<lparr>pools = [''p'' \<mapsto> demo_pool], transactions = [], users = {''alice''}\<rparr>"




definition demo_stake :: transaction where
  "demo_stake = \<lparr>transactionId = ''t1'', originalTransactionId = None, type = Stake,
     amount = Fin 10, timestamp = 0, userId = ''alice'', poolId = ''p'', unlockTime = None\<rparr>"

definition demo_unstake :: transaction where
  "demo_unstake = \<lparr>transactionId = ''u1'', originalTransactionId = Some ''t1'', type = Unstake,
     amount = Fin 10, timestamp = 31536000000, userId = ''alice'', poolId = ''p'',
     unlockTime = None\<rparr>"




text \<open>The \<open>totalStaked\<close> field of every stored pool.\<close>

definition totals :: "db \<Rightarrow> string \<rightharpoonup> jsnum" where
  "totals s = (\<lambda>p. map_option totalStaked (pools s p))"

definition open_db :: db where
  "open_db = \<lparr>pools = [''p'' \<mapsto> demo_pool\<lparr>totalStaked := Fin 10\<rparr>],
     transactions = [demo_stake], users = {''alice''}\<rparr>"

text \<open>
  \<open>open_db\<close> after one unstake of \<open>t1\<close> written at time 3, and after a second one
  written at time 4.
\<close>

definition unstaked_once_db :: db where
  "unstaked_once_db =
     \<lparr>pools = [''p'' \<mapsto> demo_pool\<lparr>totalStaked := Fin 0, updatedAt := 3\<rparr>],
      transactions = [demo_stake, demo_unstake\<lparr>timestamp := 3\<rparr>],
      users = {''alice''}\<rparr>"

definition unstaked_twice_db :: db where
  "unstaked_twice_db =
     \<lparr>pools = [''p'' \<mapsto> demo_pool\<lparr>totalStaked := Fin 0, updatedAt := 4\<rparr>],
      transactions = [demo_stake, demo_unstake\<lparr>timestamp := 3\<rparr>,
                      demo_unstake\<lparr>transactionId := ''u2'', timestamp := 4\<rparr>],
      users = {''alice''}\<rparr>"

text \<open>
  The amounts of the unstake events of a pool, selected by the \<open>poolId\<close> the
  unstake event itself carries.
\<close>

definition unstaked_by_pool :: "transaction list \<Rightarrow> string \<Rightarrow> rat" where
  "unstaked_by_pool L p =
     sum_list (map (\<lambda>u. num (amount u))
       (filter (\<lambda>u. transaction.type u = Unstake \<and> poolId u = p) L))"

text \<open>
  A user document whose \<open>_id\<close> is \<open>alice_id\<close>, and the \<open>userId\<close> of the kind that
  \<open>authController\<close> issues.
\<close>

abbreviation alice_id :: string where
  "alice_id \<equiv> ''64b7f0c2a1d3e4f5a6b7c8d9''"

abbreviation alice_uuid :: string where
  "alice_uuid \<equiv> ''3b241101-e2bb-4255-8caf-4136c566a962''"

definition alice_stake :: transaction where
  "alice_stake = demo_stake\<lparr>userId := alice_id\<rparr>"

definition alice_unstake :: transaction where
  "alice_unstake = demo_unstake\<lparr>userId := alice_id\<rparr>"

text \<open>
  Requests of a run in which no pool is deleted and every stake request carries a
  whole number; \<open>requested_total\<close> adds up the amounts of the stake requests.
\<close>

fun whole_no_delete :: "request \<Rightarrow> bool" where
  "whole_no_delete (StakeReq user p (Fin a)) = (0 \<le> a \<and> a = of_int \<lfloor>a\<rfloor>)"
| "whole_no_delete (StakeReq user p a) = False"
| "whole_no_delete (DeletePoolReq p) = False"
| "whole_no_delete r = True"

fun requested :: "request \<Rightarrow> rat" where
  "requested (StakeReq user p (Fin a)) = a"
| "requested r = 0"

definition requested_total :: "(int \<times> string \<times> request) list \<Rightarrow> rat" where
  "requested_total rs = sum_list (map (\<lambda>x. requested (snd (snd x))) rs)"

text \<open>
  The stored totals agree with the ledger: the ledger has its shape, every stake event
  has a positive whole amount and a pool that is stored, stakes minus unstakes is the
  sum of the open stakes, each stored total is that sum, and all stake amounts
  together stay within the integers that doubles count exactly.
\<close>

definition ledger_totals_ok :: "transaction list \<Rightarrow> (string \<rightharpoonup> jsnum) \<Rightarrow> bool" where
  "ledger_totals_ok L tot =
     (ledger_ok L
      \<and> (\<forall>e\<in>set L. transaction.type e = Stake \<longrightarrow> (\<exists>n. amount e = Fin (of_int n) \<and> 0 < n))
      \<and> (\<forall>e\<in>set L. transaction.type e = Stake \<longrightarrow> poolId e \<in> dom tot)
      \<and> (\<forall>p. staked_sum L p - unstaked_by_pool L p = open_sum L p)
      \<and> (\<forall>p t. tot p = Some t \<longrightarrow> t = Fin (open_sum L p))
      \<and> staked_total L \<le> 2 ^ 53)"

definition aggregates_ok :: "db \<Rightarrow> bool" where
  "aggregates_ok s = ledger_totals_ok (transactions s) (totals s)"

text \<open>A run: a pool is created, two stakes are made and the first is unstaked.\<close>

definition demo_run :: "(int \<times> string \<times> request) list" where
  "demo_run =
     [(0, ''p'', CreatePoolReq (Some ''B'') (Some ''basic'') (Some (Fin (39 / 5))) (Some (Fin 1)) None),
      (1, ''t1'', StakeReq alice_id ''p'' (Fin 10)),
      (2, ''t2'', StakeReq alice_id ''p'' (Fin 5)),
      (3, ''u1'', UnstakeReq alice_id ''t1'')]"

definition demo_run_db :: db where
  "demo_run_db =
     \<lparr>pools = [''p'' \<mapsto> demo_pool\<lparr>totalStaked := Fin 5, updatedAt := 3\<rparr>],
      transactions =
        [alice_stake\<lparr>timestamp := 1\<rparr>,
         alice_stake\<lparr>transactionId := ''t2'', amount := Fin 5, timestamp := 2\<rparr>,
         alice_unstake\<lparr>timestamp := 3\<rparr>],
      users = {alice_id}\<rparr>"

text \<open>Two runs on one pool: one stake of 2, and two stakes of 1.\<close>

definition one_stake_run :: "(int \<times> string \<times> request) list" where
  "one_stake_run =
     [(0, ''p'', CreatePoolReq (Some ''B'') (Some ''basic'') (Some (Fin (39 / 5))) (Some (Fin 1)) None),
      (1, ''t1'', StakeReq alice_id ''p'' (Fin 2))]"

definition two_stakes_run :: "(int \<times> string \<times> request) list" where
  "two_stakes_run =
     [(0, ''p'', CreatePoolReq (Some ''B'') (Some ''basic'') (Some (Fin (39 / 5))) (Some (Fin 1)) None),
      (1, ''t1'', StakeReq alice_id ''p'' (Fin 1)),
      (1, ''t2'', StakeReq alice_id ''p'' (Fin 1))]"

text \<open>
  A run with decimal amounts: stakes of 0.1 and of 0.2 in a pool with the default
  minimum, both unstaked again.
\<close>

definition decimal_run :: "(int \<times> string \<times> request) list" where
  "decimal_run =
     [(0, ''p'', CreatePoolReq (Some ''B'') (Some ''basic'') (Some (Fin (39 / 5))) None None),
      (1, ''t1'', StakeReq alice_id ''p'' (Fin (1 / 10))),
      (2, ''t2'', StakeReq alice_id ''p'' (Fin (2 / 10))),
      (3, ''u1'', UnstakeReq alice_id ''t1''),
      (4, ''u2'', UnstakeReq alice_id ''t2'')]"

text \<open>
  A run in which the sum of two stakes is not a double: 2^53 and 1. The first stake is
  unstaked again.
\<close>

definition large_run :: "(int \<times> string \<times> request) list" where
  "large_run =
     [(0, ''p'', CreatePoolReq (Some ''B'') (Some ''basic'') (Some (Fin (39 / 5))) (Some (Fin 1)) None),
      (1, ''t1'', StakeReq alice_id ''p'' (Fin 9007199254740992)),
      (2, ''t2'', StakeReq alice_id ''p'' (Fin 1)),
      (3, ''u1'', UnstakeReq alice_id ''t1'')]"

definition large_run_db :: db where
  "large_run_db =
     \<lparr>pools = [''p'' \<mapsto> demo_pool\<lparr>totalStaked := Fin 0, updatedAt := 3\<rparr>],
      transactions =
        [alice_stake\<lparr>amount := Fin 9007199254740992, timestamp := 1\<rparr>,
         alice_stake\<lparr>transactionId := ''t2'', amount := Fin 1, timestamp := 2\<rparr>,
         alice_unstake\<lparr>amount := Fin 9007199254740992, timestamp := 3\<rparr>],
      users = {alice_id}\<rparr>"

section \<open>Auxiliary facts\<close>

subsection \<open>Rounding to doubles\<close>

lemma binade_ge1_bounds: "1 \<le> r \<Longrightarrow> 2 powi binade_ge1 r \<le> r \<and> r < 2 powi (binade_ge1 r + 1)"
proof (induction r rule: binade_ge1.induct)
  case (1 r)
  show ?case
  proof (cases "r < 2")
    case True
    thus ?thesis using 1(2) by (simp add: binade_ge1.simps [of r])
  next
    case False
    hence "1 \<le> r / 2" by simp
    from 1(1) [OF False this]
    have ih: "2 powi binade_ge1 (r / 2) \<le> r / 2" "r / 2 < 2 powi (binade_ge1 (r / 2) + 1)"
      by simp_all
    have e: "binade_ge1 r = binade_ge1 (r / 2) + 1" using False by (simp add: binade_ge1.simps [of r])
    have p: "\<And>k::int. (2::rat) powi (k + 1) = 2 powi k * 2" by (simp add: power_int_add)
    show ?thesis using ih unfolding e p by simp
  qed
qed

lemma binade_lt1_bounds:
  "0 < r \<Longrightarrow> r < 1 \<Longrightarrow> 2 powi binade_lt1 r \<le> r \<and> r < 2 powi (binade_lt1 r + 1)"
proof (induction r rule: binade_lt1.induct)
  case (1 r)
  have e: "binade_lt1 r = binade_lt1 (2 * r) - 1"
    using 1(2,3) by (simp add: binade_lt1.simps [of r])
  have c: "\<not> (r \<le> 0 \<or> 1 \<le> r)" using 1(2,3) by simp
  have p: "\<And>k::int. (2::rat) powi (k - 1) = 2 powi k / 2" by (simp add: power_int_diff)
  show ?case
  proof (cases "2 * r < 1")
    case True
    from 1(1) [OF c _ True] 1(2)
    have ih: "2 powi binade_lt1 (2 * r) \<le> 2 * r" "2 * r < 2 powi (binade_lt1 (2 * r) + 1)"
      by simp_all
    have p1: "(2::rat) powi (binade_lt1 (2 * r) + 1) = 2 powi binade_lt1 (2 * r) * 2"
      by (simp add: power_int_add)
    show ?thesis using ih unfolding e p p1 by simp
  next
    case False
    hence "binade_lt1 (2 * r) = 0" by (simp add: binade_lt1.simps [of "2 * r"])
    thus ?thesis using False 1(3) unfolding e by (simp add: power_int_minus)
  qed
qed

lemma binade_bounds: "0 < r \<Longrightarrow> 2 powi binade r \<le> r \<and> r < 2 powi (binade r + 1)"
  using binade_ge1_bounds [of r] binade_lt1_bounds [of r] by (simp add: binade_def)

lemma binade_unique:
  assumes "0 < r" "2 powi e \<le> r" "r < 2 powi (e + 1)"
  shows "binade r = e"
proof -
  from binade_bounds [OF assms(1)]
  have b: "2 powi binade r \<le> r" "r < 2 powi (binade r + 1)" by simp_all
  have "\<not> binade r < e"
  proof
    assume "binade r < e"
    hence "binade r + 1 \<le> e" by simp
    hence "(2::rat) powi (binade r + 1) \<le> 2 powi e" by (intro power_int_increasing) simp_all
    thus False using b(2) assms(2) by simp
  qed
  moreover have "\<not> e < binade r"
  proof
    assume "e < binade r"
    hence "e + 1 \<le> binade r" by simp
    hence "(2::rat) powi (e + 1) \<le> 2 powi binade r" by (intro power_int_increasing) simp_all
    thus False using b(1) assms(3) by simp
  qed
  ultimately show ?thesis by simp
qed


lemma two_powi_pos [simp]: "(0::rat) < 2 powi k"
  by (simp add: zero_less_power_int)

lemma two_powi_Suc: "(2::rat) powi (k + 1) = 2 powi k * 2"
  by (simp add: power_int_add)


lemma two_powi_52: "(2::rat) powi k = 2 powi (k - 52) * 2 ^ 52"
proof -
  have "(2::rat) powi k = 2 powi (k - 52 + 52)" by simp
  also have "\<dots> = 2 powi (k - 52) * 2 powi 52" by (rule power_int_add) simp
  finally show ?thesis by simp
qed

lemma two_powi_53: "(2::rat) powi (k + 1) = 2 powi (k - 52) * 2 ^ 53"
proof -
  have "(2::rat) powi (k + 1) = 2 powi (k - 52 + 53)"
    by (rule arg_cong [where f = "\<lambda>x. 2 powi x"]) simp
  also have "\<dots> = 2 powi (k - 52) * 2 powi 53" by (rule power_int_add) simp
  finally show ?thesis by simp
qed


lemma round_half_even_of_int [simp]: "round_half_even (of_int n) = n"
  by (simp add: round_half_even_def)

lemma round_half_even_bounds: "\<lfloor>x\<rfloor> \<le> round_half_even x \<and> round_half_even x \<le> \<lfloor>x\<rfloor> + 1"
  by (simp add: round_half_even_def Let_def)

lemma round_half_even_mono: "x \<le> y \<Longrightarrow> round_half_even x \<le> round_half_even y"
proof -
  assume xy: "x \<le> y"
  hence f: "\<lfloor>x\<rfloor> \<le> \<lfloor>y\<rfloor>" by (rule floor_mono)
  show ?thesis
  proof (cases "\<lfloor>x\<rfloor> = \<lfloor>y\<rfloor>")
    case True
    thus ?thesis using xy by (auto simp: round_half_even_def Let_def)
  next
    case False
    with f have "\<lfloor>x\<rfloor> + 1 \<le> \<lfloor>y\<rfloor>" by simp
    thus ?thesis using round_half_even_bounds [of x] round_half_even_bounds [of y] by linarith
  qed
qed

lemma round_half_even_uminus: "round_half_even (- x) = - round_half_even x"
proof (cases "x = of_int \<lfloor>x\<rfloor>")
  case True
  have "round_half_even (- of_int \<lfloor>x\<rfloor>) = - round_half_even (of_int \<lfloor>x\<rfloor>)"
    unfolding of_int_minus [symmetric] round_half_even_of_int ..
  thus ?thesis using True by simp
next
  case False
  hence "\<lceil>x\<rceil> = \<lfloor>x\<rfloor> + 1" by (simp add: ceiling_altdef)
  hence f: "\<lfloor>- x\<rfloor> = - \<lfloor>x\<rfloor> - 1" by (simp add: ceiling_def)
  show ?thesis unfolding round_half_even_def Let_def f by auto
qed

lemma double_of_0 [simp]: "double_of 0 = 0"
  by (simp add: double_of_def)

lemma double_of_uminus: "double_of (- r) = - double_of r"
  by (simp add: double_of_def Let_def round_half_even_uminus)

lemma double_of_mantissa:
  assumes "0 < r"
  shows "2 ^ 52 \<le> round_half_even (r / 2 powi (binade r - 52))
       \<and> round_half_even (r / 2 powi (binade r - 52)) \<le> 2 ^ 53"
proof -
  define P where "P = (2::rat) powi (binade r - 52)"
  have P: "0 < P" by (simp add: P_def)
  have e1: "(2::rat) powi binade r = P * 2 ^ 52" unfolding P_def by (rule two_powi_52)
  have e2: "(2::rat) powi (binade r + 1) = P * 2 ^ 53" unfolding P_def by (rule two_powi_53)
  from binade_bounds [OF assms]
  have b: "P * 2 ^ 52 \<le> r" "r < P * 2 ^ 53" unfolding e1 e2 by simp_all
  have l: "of_int (2 ^ 52) \<le> r / P" using b(1) P by (simp add: field_simps)
  have u: "r / P \<le> of_int (2 ^ 53)" using b(2) P by (simp add: field_simps)
  from round_half_even_mono [OF l] round_half_even_mono [OF u]
  show ?thesis unfolding P_def [symmetric] round_half_even_of_int by simp
qed

lemma double_of_pos_eq: "0 < r \<Longrightarrow> double_of r = of_int (round_half_even (r / 2 powi (binade r - 52))) * 2 powi (binade r - 52)"
  by (simp add: double_of_def Let_def)

lemma double_of_pos_bounds:
  assumes "0 < r"
  shows "2 powi binade r \<le> double_of r \<and> double_of r \<le> 2 powi (binade r + 1)"
proof -
  define P where "P = (2::rat) powi (binade r - 52)"
  define m where "m = round_half_even (r / P)"
  have P: "0 < P" by (simp add: P_def)
  have e1: "(2::rat) powi binade r = P * 2 ^ 52" unfolding P_def by (rule two_powi_52)
  have e2: "(2::rat) powi (binade r + 1) = P * 2 ^ 53" unfolding P_def by (rule two_powi_53)
  have m: "2 ^ 52 \<le> m" "m \<le> 2 ^ 53" using double_of_mantissa [OF assms] by (simp_all add: m_def P_def)
  have f: "double_of r = of_int m * P" using assms by (simp add: double_of_pos_eq m_def P_def)
  have "(of_int (2 ^ 52) :: rat) \<le> of_int m" "(of_int m :: rat) \<le> of_int (2 ^ 53)"
    using m by (simp_all only: of_int_le_iff)
  hence "P * of_int (2 ^ 52) \<le> P * of_int m" "P * of_int m \<le> P * of_int (2 ^ 53)"
    using P by (simp_all only: mult_le_cancel_left_pos)
  thus ?thesis unfolding e1 e2 f by (simp add: mult.commute)
qed

lemma double_of_pos: "0 < r \<Longrightarrow> 0 < double_of r"
  using double_of_pos_bounds [of r] two_powi_pos [of "binade r"] by linarith




lemma double_of_eq_0_iff [simp]: "double_of r = 0 \<longleftrightarrow> r = 0"
proof
  assume z: "double_of r = 0"
  show "r = 0"
  proof (rule ccontr)
    assume "r \<noteq> 0"
    then consider "0 < r" | "0 < - r" by linarith
    thus False using double_of_pos [of r] double_of_pos [of "- r"] z by cases (simp_all add: double_of_uminus)
  qed
qed simp



lemma double_of_exact:
  assumes "0 < r" "r / 2 powi (binade r - 52) = of_int m"
  shows "double_of r = r"
proof -
  have "double_of r = of_int m * 2 powi (binade r - 52)"
    using assms(1) by (simp add: double_of_pos_eq assms(2))
  also have "\<dots> = r" unfolding assms(2) [symmetric] by simp
  finally show ?thesis .
qed

lemma double_of_idem_pos:
  assumes "0 < r"
  shows "double_of (double_of r) = double_of r"
proof -
  define e where "e = binade r"
  define P where "P = (2::rat) powi (e - 52)"
  define m where "m = round_half_even (r / P)"
  have P: "0 < P" by (simp add: P_def)
  have m: "2 ^ 52 \<le> m" "m \<le> 2 ^ 53"
    using double_of_mantissa [OF assms] by (simp_all add: m_def P_def e_def)
  have f: "double_of r = of_int m * P" using assms by (simp add: double_of_pos_eq m_def P_def e_def)
  have pos: "0 < double_of r" using assms by (rule double_of_pos)
  have e1: "(2::rat) powi e = P * 2 ^ 52" unfolding P_def by (rule two_powi_52)
  have e2: "(2::rat) powi (e + 1) = P * 2 ^ 53" unfolding P_def by (rule two_powi_53)
  have e3: "(2::rat) powi (e + 1 + 1) = P * 2 ^ 53 * 2" unfolding e2 [symmetric] by (rule two_powi_Suc)
  have e4: "(2::rat) powi (e + 1 - 52) = P * 2"
  proof -
    have "e + 1 - 52 = e - 52 + 1" by simp
    thus ?thesis unfolding P_def by (simp only: two_powi_Suc)
  qed
  have lo: "(of_int (2 ^ 52) :: rat) \<le> of_int m" using m(1) by (simp only: of_int_le_iff)
  show ?thesis
  proof (cases "m = 2 ^ 53")
    case True
    have v: "double_of r = P * 2 ^ 53" unfolding f True by simp
    have i: "binade (double_of r) = e + 1"
    proof (rule binade_unique)
      show "0 < double_of r" by (rule pos)
      show "2 powi (e + 1) \<le> double_of r" unfolding e2 v by simp
      show "double_of r < 2 powi (e + 1 + 1)" unfolding e3 v using P by simp
    qed
    have "double_of r / 2 powi (binade (double_of r) - 52) = of_int (2 ^ 52)"
      unfolding i e4 unfolding v using P by simp
    with pos show ?thesis by (rule double_of_exact)
  next
    case False
    with m(2) have "m < 2 ^ 53" by simp
    hence hi: "(of_int m :: rat) < of_int (2 ^ 53)" by (simp only: of_int_less_iff)
    have i: "binade (double_of r) = e"
    proof (rule binade_unique)
      show "0 < double_of r" by (rule pos)
      have "P * of_int (2 ^ 52) \<le> P * of_int m" using lo P by (simp only: mult_le_cancel_left_pos)
      thus "2 powi e \<le> double_of r" unfolding f e1 by (simp add: mult.commute)
      have "P * of_int m < P * of_int (2 ^ 53)" using hi P by (simp only: mult_less_cancel_left_pos)
      thus "double_of r < 2 powi (e + 1)" unfolding f e2 by (simp add: mult.commute)
    qed
    have "double_of r / 2 powi (binade (double_of r) - 52) = of_int m"
      unfolding i unfolding f P_def [symmetric] using P by simp
    with pos show ?thesis by (rule double_of_exact)
  qed
qed

lemma double_of_idem [simp]: "double_of (double_of r) = double_of r"
proof -
  consider "r = 0" | "0 < r" | "0 < - r" by linarith
  thus ?thesis
  proof cases
    case 3
    from double_of_idem_pos [OF this] show ?thesis by (simp add: double_of_uminus)
  qed (simp_all add: double_of_idem_pos)
qed

lemma double_of_of_int_pos:
  assumes "0 < n" "n \<le> 2 ^ 53"
  shows "double_of (of_int n) = of_int n"
proof -
  have pos: "(0::rat) < of_int n" using assms by simp
  define e where "e = binade (of_int n)"
  have b: "2 powi e \<le> (of_int n :: rat)" "(of_int n :: rat) < 2 powi (e + 1)"
    using binade_bounds [OF pos] by (simp_all add: e_def)
  have "(of_int n :: rat) \<le> of_int (2 ^ 53)" using assms(2) by (simp only: of_int_le_iff)
  hence n53: "(of_int n :: rat) \<le> 2 powi 53" by simp
  have e53: "e \<le> 53"
  proof (rule ccontr)
    assume "\<not> e \<le> 53"
    hence "54 \<le> e" by simp
    hence "(2::rat) powi 54 \<le> 2 powi e" by (intro power_int_increasing) simp_all
    thus False using b(1) n53 by simp
  qed
  show ?thesis
  proof (cases "e = 53")
    case True
    have "(of_int n :: rat) = of_int (2 ^ 53)" using b(1) n53 unfolding True by simp
    hence n: "n = 2 ^ 53" by (simp only: of_int_eq_iff)
    have "(of_int n :: rat) / 2 powi (binade (of_int n) - 52) = of_int (2 ^ 52)"
      unfolding e_def [symmetric] True unfolding n by simp
    with pos show ?thesis by (rule double_of_exact)
  next
    case False
    with e53 have "e \<le> 52" by simp
    then obtain k where k: "e - 52 = - int k" by (metis nonpos_int_cases diff_le_0_iff_le)
    have "(of_int n :: rat) / 2 powi (binade (of_int n) - 52) = of_int (n * 2 ^ k)"
      unfolding e_def [symmetric] k by (simp add: power_int_minus field_simps)
    with pos show ?thesis by (rule double_of_exact)
  qed
qed

lemma double_of_of_int: "\<bar>n\<bar> \<le> 2 ^ 53 \<Longrightarrow> double_of (of_int n) = of_int n"
proof -
  assume a: "\<bar>n\<bar> \<le> 2 ^ 53"
  consider "n = 0" | "0 < n" | "0 < - n" by linarith
  thus ?thesis
  proof cases
    case 2
    thus ?thesis using a by (intro double_of_of_int_pos) simp_all
  next
    case 3
    hence "double_of (of_int (- n)) = of_int (- n)" using a by (intro double_of_of_int_pos) simp_all
    thus ?thesis by (simp add: double_of_uminus)
  qed simp
qed

lemma double_of_numeral [simp]: "numeral k \<le> (9007199254740992::int) \<Longrightarrow> double_of (numeral k) = numeral k"
  using double_of_of_int [of "numeral k"] by simp

lemma double_of_neg_numeral [simp]:
  "numeral k \<le> (9007199254740992::int) \<Longrightarrow> double_of (- numeral k) = - numeral k"
  by (simp add: double_of_uminus)

lemma double_of_1 [simp]: "double_of 1 = 1"
  using double_of_of_int [of 1] by simp

lemma double_of_neg_1 [simp]: "double_of (- 1) = - 1"
  by (simp add: double_of_uminus)

lemma round_half_even_eqI:
  assumes "of_int m - 1 / 2 < x" "x < of_int m + 1 / 2"
  shows "round_half_even x = m"
proof -
  have "\<lfloor>x\<rfloor> = m \<or> \<lfloor>x\<rfloor> = m - 1" using assms by linarith
  thus ?thesis
  proof
    assume f: "\<lfloor>x\<rfloor> = m"
    hence "x - of_int \<lfloor>x\<rfloor> < 1 / 2" using assms by simp
    thus ?thesis by (simp add: round_half_even_def Let_def f)
  next
    assume f: "\<lfloor>x\<rfloor> = m - 1"
    hence "1 / 2 < x - of_int \<lfloor>x\<rfloor>" using assms by simp
    thus ?thesis by (simp add: round_half_even_def Let_def f)
  qed
qed

text \<open>
  The double nearest to \<open>r\<close>, from its exponent \<open>e\<close> and the significand \<open>m\<close> that
  \<open>r\<close> is nearest to.
\<close>

lemma double_of_eqI:
  assumes "0 < r" "2 powi e \<le> r" "r < 2 powi (e + 1)"
    and "of_int m - 1 / 2 < r / 2 powi (e - 52)" "r / 2 powi (e - 52) < of_int m + 1 / 2"
  shows "double_of r = of_int m * 2 powi (e - 52)"
proof -
  have b: "binade r = e" using assms(1-3) by (rule binade_unique)
  have "round_half_even (r / 2 powi (e - 52)) = m" using assms(4,5) by (rule round_half_even_eqI)
  thus ?thesis using assms(1) by (simp add: double_of_pos_eq b)
qed

subsection \<open>Numbers and lookups\<close>

lemma floor_rat_numeral [simp]:
  "\<lfloor>(numeral a :: rat) / numeral b\<rfloor> = numeral a div numeral b"
  using floor_divide_of_int_eq[of "numeral a" "numeral b", where ?'a = rat] by simp

lemma js_lt_zero_valid:
  "js_lt (Fin 0) a \<Longrightarrow> truthy a \<and> \<not> isNaN a \<and> \<not> js_le a (Fin 0)"
  by (cases a) (auto simp: truthy_def)

lemma js_add_whole:
  assumes "\<bar>a\<bar> \<le> 2 ^ 53" "\<bar>b\<bar> \<le> 2 ^ 53" "\<bar>a + b\<bar> \<le> 2 ^ 53"
  shows "js_add (Fin (of_int a)) (Fin (of_int b)) = Fin (of_int (a + b))"
proof -
  have "double_of (of_int a + of_int b) = of_int (a + b)"
    using double_of_of_int [OF assms(3)] by simp
  thus ?thesis by (simp add: double_of_of_int [OF assms(1)] double_of_of_int [OF assms(2)])
qed

lemma js_sub_whole:
  assumes "\<bar>a\<bar> \<le> 2 ^ 53" "\<bar>b\<bar> \<le> 2 ^ 53" "\<bar>a - b\<bar> \<le> 2 ^ 53"
  shows "js_sub (Fin (of_int a)) (Fin (of_int b)) = Fin (of_int (a - b))"
  using js_add_whole [of a "- b"] assms by (simp add: js_sub_def)

lemma save_totalStaked_same:
  "pools s p = Some pool \<Longrightarrow>
   save_totalStaked (s\<lparr>transactions := L\<rparr>) p (pool\<lparr>totalStaked := v, updatedAt := n\<rparr>)
     = Some (s\<lparr>transactions := L, pools := (pools s)(p \<mapsto> pool\<lparr>totalStaked := v, updatedAt := n\<rparr>)\<rparr>)"
  by (simp add: save_totalStaked_def save_pool_def)

lemma find_append:
  "find P (xs @ ys) = (case find P xs of Some x \<Rightarrow> Some x | None \<Rightarrow> find P ys)"
  by (induction xs) auto

lemma save_transaction_Some:
  "save_transaction s t = Some s1 \<longleftrightarrow>
     transactionId t \<notin> set (map transactionId (transactions s))
     \<and> s1 = s\<lparr>transactions := transactions s @ [t]\<rparr>"
  by (auto simp: save_transaction_def)

subsection \<open>What a successful stake or unstake did\<close>

lemma stake_read_pool: "stake_read s user p a = Inr pool \<Longrightarrow> pools s p = Some pool"
  by (auto simp: stake_read_def split: option.splits if_splits)

lemma unstake_read_pool:
  "unstake_read s now user tid = Inr (st, pool) \<Longrightarrow>
     find_stake s tid user = Some st \<and> pools s (poolId st) = Some pool"
  by (auto simp: unstake_read_def split: option.splits if_splits)

lemma stakeTokens_failure: "stakeTokens s now uuid user p a = (Inl e, s') \<Longrightarrow> s' = s"
  by (auto simp: stakeTokens_def stake_write_def Let_def save_transaction_Some
      save_totalStaked_same dest!: stake_read_pool split: sum.splits option.splits if_splits)

lemma stakeTokens_success:
  assumes "stakeTokens s now uuid user p a = (Inr r, s')"
  shows "\<exists>pool.
    js_lt (Fin 0) a
    \<and> pools s p = Some pool
    \<and> \<not> js_lt a (minStake pool)
    \<and> is_ObjectId user \<and> user \<in> users s
    \<and> uuid \<notin> set (map transactionId (transactions s))
    \<and> transactionId (fst r) = uuid \<and> originalTransactionId (fst r) = None
    \<and> transaction.type (fst r) = Stake \<and> amount (fst r) = a \<and> timestamp (fst r) = now
    \<and> userId (fst r) = user \<and> poolId (fst r) = p
    \<and> snd r = pool\<lparr>totalStaked := js_add (js_or (totalStaked pool) (Fin 0)) a,
                     updatedAt := now\<rparr>
    \<and> s' = s\<lparr>transactions := transactions s @ [fst r], pools := (pools s)(p \<mapsto> snd r)\<rparr>"
proof -
  from assms obtain pool where rd: "stake_read s user p a = Inr pool"
    and wr: "stake_write s now uuid user p a pool = (Inr r, s')"
    by (auto simp: stakeTokens_def split: sum.splits)
  from rd have pos: "js_lt (Fin 0) a"
    by (cases a) (auto simp: stake_read_def truthy_def split: if_splits)
  from rd have pool: "pools s p = Some pool" "\<not> js_lt a (minStake pool)"
      "is_ObjectId user" "user \<in> users s"
    by (auto simp: stake_read_def split: option.splits if_splits)
  from wr pool(1) have "uuid \<notin> set (map transactionId (transactions s))
    \<and> transactionId (fst r) = uuid \<and> originalTransactionId (fst r) = None
    \<and> transaction.type (fst r) = Stake \<and> amount (fst r) = a \<and> timestamp (fst r) = now
    \<and> userId (fst r) = user \<and> poolId (fst r) = p
    \<and> snd r = pool\<lparr>totalStaked := js_add (js_or (totalStaked pool) (Fin 0)) a,
                     updatedAt := now\<rparr>
    \<and> s' = s\<lparr>transactions := transactions s @ [fst r], pools := (pools s)(p \<mapsto> snd r)\<rparr>"
    by (auto simp: stake_write_def Let_def save_transaction_Some save_totalStaked_same
        split: option.splits if_splits)
  with pos pool show ?thesis by blast
qed

text \<open>The 404 of the user lookup is reached by an id written as an \<open>ObjectId\<close>.\<close>

lemma stake_unknown_ObjectId:
  assumes "js_lt (Fin 0) a" and "pools s p = Some pool" and "\<not> js_lt a (minStake pool)"
    and "is_ObjectId user" and "user \<notin> users s"
  shows "stakeTokens s now uuid user p a = (Inl (NotFoundError UserEntity), s)"
  using assms js_lt_zero_valid[of a] by (simp add: stakeTokens_def stake_read_def)

lemma unstakeTokens_failure: "unstakeTokens s now uuid user tid = (Inl e, s') \<Longrightarrow> s' = s"
  by (auto simp: unstakeTokens_def unstake_write_def Let_def save_transaction_Some
      save_totalStaked_same dest!: unstake_read_pool split: sum.splits option.splits if_splits)

lemma unstakeTokens_success:
  assumes "unstakeTokens s now uuid user tid = (Inr r, s')"
  shows "\<exists>st pool.
    find_stake s tid user = Some st
    \<and> find_unstake_of_user s tid user = None
    \<and> (\<forall>d. unlockTime st = Some d \<longrightarrow> \<not> date_lt now d)
    \<and> pools s (poolId st) = Some pool
    \<and> uuid \<notin> set (map transactionId (transactions s))
    \<and> fst r = \<lparr>transactionId = uuid, originalTransactionId = Some tid, type = Unstake,
              amount = amount st, timestamp = now, userId = user, poolId = poolId st,
              unlockTime = None\<rparr>
    \<and> snd r = pool\<lparr>totalStaked :=
          Math_max (Fin 0) (js_sub (js_or (totalStaked pool) (Fin 0)) (amount st)),
          updatedAt := now\<rparr>
    \<and> s' = s\<lparr>transactions := transactions s @ [fst r],
             pools := (pools s)(poolId st \<mapsto> snd r)\<rparr>"
proof -
  from assms obtain st pool where rd: "unstake_read s now user tid = Inr (st, pool)"
    and wr: "unstake_write s now uuid user tid st pool = (Inr r, s')"
    by (auto simp: unstakeTokens_def split: sum.splits)
  from rd have a: "find_stake s tid user = Some st" "find_unstake_of_user s tid user = None"
      "\<forall>d. unlockTime st = Some d \<longrightarrow> \<not> date_lt now d" "pools s (poolId st) = Some pool"
    by (auto simp: unstake_read_def split: option.splits if_splits)
  from wr a(4) have "uuid \<notin> set (map transactionId (transactions s))
    \<and> fst r = \<lparr>transactionId = uuid, originalTransactionId = Some tid, type = Unstake,
              amount = amount st, timestamp = now, userId = user, poolId = poolId st,
              unlockTime = None\<rparr>
    \<and> snd r = pool\<lparr>totalStaked :=
          Math_max (Fin 0) (js_sub (js_or (totalStaked pool) (Fin 0)) (amount st)),
          updatedAt := now\<rparr>
    \<and> s' = s\<lparr>transactions := transactions s @ [fst r],
             pools := (pools s)(poolId st \<mapsto> snd r)\<rparr>"
    by (auto simp: unstake_write_def Let_def save_transaction_Some save_totalStaked_same
        split: option.splits if_splits)
  with a show ?thesis by blast
qed

lemma find_stake_SomeD:
  "find_stake s tid user = Some st \<Longrightarrow>
     st \<in> set (transactions s) \<and> transactionId st = tid \<and> transaction.type st = Stake
     \<and> userId st = user"
  by (auto simp: find_stake_def find_Some_iff)

subsection \<open>The ledger keeps its shape\<close>

lemma same_id_same_tx:
  "distinct (map transactionId L) \<Longrightarrow> x \<in> set L \<Longrightarrow> y \<in> set L
   \<Longrightarrow> transactionId x = transactionId y \<Longrightarrow> x = y"
  by (meson distinct_map inj_onD)

lemma no_unstake_of_user_open:
  assumes ok: "ledger_ok (transactions s)"
    and st: "find_stake s tid user = Some st"
    and none: "find_unstake_of_user s tid user = None"
  shows "is_open (transactions s) st"
proof -
  from st have stL: "st \<in> set (transactions s)" and stid: "transactionId st = tid"
    and stu: "userId st = user"
    using find_stake_SomeD by blast+
  show ?thesis
    unfolding is_open_def
  proof
    assume "\<exists>u\<in>set (transactions s). references (transactionId st) u"
    then obtain u where u: "u \<in> set (transactions s)" "transaction.type u = Unstake"
      "originalTransactionId u = Some tid"
      by (auto simp: references_def stid)
    with ok obtain e where e: "e \<in> set (transactions s)"
      "originalTransactionId u = Some (transactionId e)" "userId u = userId e"
      unfolding ledger_ok_def by blast
    from e u have "transactionId e = transactionId st" by (simp add: stid)
    with ok e stL have "e = st" unfolding ledger_ok_def using same_id_same_tx by blast
    with e stu have "userId u = user" by simp
    with u none show False
      by (auto simp: find_unstake_of_user_def find_None_iff)
  qed
qed

lemma ledger_ok_append_other:
  assumes "ledger_ok L" "transactionId t \<notin> set (map transactionId L)"
    "transaction.type t \<noteq> Unstake"
  shows "ledger_ok (L @ [t])"
proof -
  have d: "distinct (map transactionId (L @ [t]))"
    using assms by (simp add: ledger_ok_def)
  have r: "\<forall>u\<in>set (L @ [t]). transaction.type u = Unstake \<longrightarrow>
            (\<exists>e\<in>set (L @ [t]). transaction.type e = Stake
               \<and> originalTransactionId u = Some (transactionId e)
               \<and> userId u = userId e \<and> poolId u = poolId e \<and> amount u = amount e)"
  proof (intro ballI impI)
    fix u assume u: "u \<in> set (L @ [t])" "transaction.type u = Unstake"
    with assms(3) have "u \<in> set L" by auto
    with assms(1) u(2) obtain e where "e \<in> set L" "transaction.type e = Stake"
        "originalTransactionId u = Some (transactionId e)"
        "userId u = userId e" "poolId u = poolId e" "amount u = amount e"
      unfolding ledger_ok_def by blast
    then show "\<exists>e\<in>set (L @ [t]). transaction.type e = Stake
               \<and> originalTransactionId u = Some (transactionId e)
               \<and> userId u = userId e \<and> poolId u = poolId e \<and> amount u = amount e"
      by auto
  qed
  have o: "\<forall>u\<in>set (L @ [t]). \<forall>v\<in>set (L @ [t]).
            transaction.type u = Unstake \<and> transaction.type v = Unstake
            \<and> originalTransactionId u = originalTransactionId v \<longrightarrow> u = v"
  proof (intro ballI impI)
    fix u v assume u: "u \<in> set (L @ [t])" and v: "v \<in> set (L @ [t])"
      and uv: "transaction.type u = Unstake \<and> transaction.type v = Unstake
            \<and> originalTransactionId u = originalTransactionId v"
    from u v uv assms(3) have "u \<in> set L" "v \<in> set L" by auto
    with assms(1) uv show "u = v" unfolding ledger_ok_def by blast
  qed
  from d r o show ?thesis unfolding ledger_ok_def by blast
qed

lemma ledger_ok_append_unstake:
  assumes ok: "ledger_ok L" and fresh: "transactionId t \<notin> set (map transactionId L)"
    and t: "transaction.type t = Unstake" "originalTransactionId t = Some (transactionId st)"
      "userId t = userId st" "poolId t = poolId st" "amount t = amount st"
    and st: "st \<in> set L" "transaction.type st = Stake" "is_open L st"
  shows "ledger_ok (L @ [t])"
  unfolding ledger_ok_def
proof (intro conjI)
  show "distinct (map transactionId (L @ [t]))"
    using ok fresh by (simp add: ledger_ok_def)
  show "\<forall>u\<in>set (L @ [t]). transaction.type u = Unstake \<longrightarrow>
            (\<exists>e\<in>set (L @ [t]). transaction.type e = Stake
               \<and> originalTransactionId u = Some (transactionId e)
               \<and> userId u = userId e \<and> poolId u = poolId e \<and> amount u = amount e)"
  proof (intro ballI impI)
    fix u assume u: "u \<in> set (L @ [t])" "transaction.type u = Unstake"
    show "\<exists>e\<in>set (L @ [t]). transaction.type e = Stake
               \<and> originalTransactionId u = Some (transactionId e)
               \<and> userId u = userId e \<and> poolId u = poolId e \<and> amount u = amount e"
    proof (cases "u = t")
      case True
      with t st show ?thesis by auto
    next
      case False
      with u have "u \<in> set L" by simp
      with ok u(2) obtain e where "e \<in> set L" "transaction.type e = Stake"
        "originalTransactionId u = Some (transactionId e)"
        "userId u = userId e" "poolId u = poolId e" "amount u = amount e"
        unfolding ledger_ok_def by blast
      then show ?thesis by auto
    qed
  qed
  show "\<forall>u\<in>set (L @ [t]). \<forall>v\<in>set (L @ [t]).
            transaction.type u = Unstake \<and> transaction.type v = Unstake
            \<and> originalTransactionId u = originalTransactionId v \<longrightarrow> u = v"
  proof (intro ballI impI)
    fix u v assume u: "u \<in> set (L @ [t])" and v: "v \<in> set (L @ [t])"
      and uv: "transaction.type u = Unstake \<and> transaction.type v = Unstake
            \<and> originalTransactionId u = originalTransactionId v"
    have noref: "\<And>w. w \<in> set L \<Longrightarrow> transaction.type w = Unstake
        \<Longrightarrow> originalTransactionId w \<noteq> Some (transactionId st)"
      using st(3) by (auto simp: is_open_def references_def)
    show "u = v"
    proof (cases "u = t")
      case ut: True
      show ?thesis
      proof (cases "v = t")
        case True with ut show ?thesis by simp
      next
        case False
        with v have "v \<in> set L" by simp
        with noref uv ut t show ?thesis by auto
      qed
    next
      case uf: False
      with u have uL: "u \<in> set L" by simp
      show ?thesis
      proof (cases "v = t")
        case True
        with noref uL uv t show ?thesis by auto
      next
        case False
        with v have "v \<in> set L" by simp
        with ok uL uv show ?thesis unfolding ledger_ok_def by blast
      qed
    qed
  qed
qed

subsection \<open>Rewards\<close>


















lemma double_reward_of_double_amount [simp]:
  "double_reward (double_of a) p d = double_reward a p d"
  by (simp add: double_reward_def)

lemma double_reward_of_double_apy [simp]:
  "double_reward a (double_of p) d = double_reward a p d"
  by (simp add: double_reward_def)



subsection \<open>Reachable ledgers\<close>

lemma serial_run_snoc: "serial_run s (rs @ [r]) = handle (serial_run s rs) r"
  by (simp add: serial_run_def)

lemma serial_run_Nil: "serial_run s [] = s"
  by (simp add: serial_run_def)

lemma depositToPool_transactions:
  "transactions (snd (depositToPool s now uuid user p a)) = transactions s
   \<or> (\<exists>t. transactions (snd (depositToPool s now uuid user p a)) = transactions s @ [t]
        \<and> transactionId t \<notin> set (map transactionId (transactions s))
        \<and> transaction.type t = Deposit)"
  by (simp add: depositToPool_def Let_def save_transaction_def save_pool_def
      split: option.splits)

lemma withdrawFromPool_transactions:
  "transactions (snd (withdrawFromPool s now uuid user p a)) = transactions s
   \<or> (\<exists>t. transactions (snd (withdrawFromPool s now uuid user p a)) = transactions s @ [t]
        \<and> transactionId t \<notin> set (map transactionId (transactions s))
        \<and> transaction.type t = Withdraw)"
  by (simp add: withdrawFromPool_def Let_def save_transaction_def save_pool_def
      split: option.splits)

lemma createPool_transactions:
  "transactions (snd (createPool s now pid n t a m l)) = transactions s"
  by (simp add: createPool_def Let_def save_pool_def)

lemma updatePool_transactions:
  "transactions (snd (updatePool s now p n a m l)) = transactions s"
  by (simp add: updatePool_def Let_def save_pool_def split: option.splits)

lemma deletePool_transactions: "transactions (snd (deletePool s p)) = transactions s"
  by (simp add: deletePool_def split: option.splits)

lemma depositToPool_totals: "totals (snd (depositToPool s now uuid user p a)) = totals s"
  by (auto simp: depositToPool_def Let_def save_transaction_def save_pool_def totals_def
      fun_eq_iff split: option.splits)

lemma withdrawFromPool_totals: "totals (snd (withdrawFromPool s now uuid user p a)) = totals s"
  by (auto simp: withdrawFromPool_def Let_def save_transaction_def save_pool_def totals_def
      fun_eq_iff split: option.splits)

lemma updatePool_totals: "totals (snd (updatePool s now p n a m l)) = totals s"
  by (auto simp: updatePool_def Let_def save_pool_def totals_def fun_eq_iff
      split: option.splits)

lemma createPool_totals:
  "totals (snd (createPool s now pid n t a m l)) = totals s
   \<or> (pid \<notin> dom (totals s)
       \<and> totals (snd (createPool s now pid n t a m l)) = (totals s)(pid \<mapsto> Fin 0))"
  by (auto simp: createPool_def Let_def save_pool_def totals_def fun_eq_iff dom_def)

lemma stakeTokens_cases:
  obtains (failed) "snd (stakeTokens s now uuid user p a) = s"
  | (saved) r where "stakeTokens s now uuid user p a = (Inr r, snd (stakeTokens s now uuid user p a))"
proof (cases "fst (stakeTokens s now uuid user p a)")
  case (Inl e)
  then have "stakeTokens s now uuid user p a = (Inl e, snd (stakeTokens s now uuid user p a))"
    by (simp add: prod_eq_iff)
  from stakeTokens_failure[OF this] failed show ?thesis by blast
next
  case (Inr r)
  then have "stakeTokens s now uuid user p a = (Inr r, snd (stakeTokens s now uuid user p a))"
    by (simp add: prod_eq_iff)
  with saved show ?thesis by blast
qed

lemma unstakeTokens_cases:
  obtains (failed) "snd (unstakeTokens s now uuid user tid) = s"
  | (saved) r where
      "unstakeTokens s now uuid user tid = (Inr r, snd (unstakeTokens s now uuid user tid))"
proof (cases "fst (unstakeTokens s now uuid user tid)")
  case (Inl e)
  then have "unstakeTokens s now uuid user tid = (Inl e, snd (unstakeTokens s now uuid user tid))"
    by (simp add: prod_eq_iff)
  from unstakeTokens_failure[OF this] failed show ?thesis by blast
next
  case (Inr r)
  then have "unstakeTokens s now uuid user tid = (Inr r, snd (unstakeTokens s now uuid user tid))"
    by (simp add: prod_eq_iff)
  with saved show ?thesis by blast
qed


lemma stake_keeps_ledger_ok:
  assumes ok: "ledger_ok (transactions s)"
    and r: "stakeTokens s now uuid user p a = (Inr r, s')"
  shows "ledger_ok (transactions s')"
proof -
  from stakeTokens_success[OF r] obtain pool where
    f: "uuid \<notin> set (map transactionId (transactions s))" "transactionId (fst r) = uuid"
      "transaction.type (fst r) = Stake"
    and s': "s' = s\<lparr>transactions := transactions s @ [fst r], pools := (pools s)(p \<mapsto> snd r)\<rparr>"
    by blast
  from ok f show ?thesis by (simp add: s' ledger_ok_append_other)
qed

lemma unstake_keeps_ledger_ok:
  assumes ok: "ledger_ok (transactions s)"
    and r: "unstakeTokens s now uuid user tid = (Inr r, s')"
  shows "ledger_ok (transactions s')"
proof -
  from unstakeTokens_success[OF r] obtain st pool where
    st: "find_stake s tid user = Some st" and none: "find_unstake_of_user s tid user = None"
    and f: "uuid \<notin> set (map transactionId (transactions s))"
    and t: "fst r = \<lparr>transactionId = uuid, originalTransactionId = Some tid, type = Unstake,
              amount = amount st, timestamp = now, userId = user, poolId = poolId st,
              unlockTime = None\<rparr>"
    and s': "s' = s\<lparr>transactions := transactions s @ [fst r],
             pools := (pools s)(poolId st \<mapsto> snd r)\<rparr>"
    by blast
  from find_stake_SomeD[OF st] have d: "st \<in> set (transactions s)" "transactionId st = tid"
    "transaction.type st = Stake" "userId st = user" by blast+
  have "ledger_ok (transactions s @ [fst r])"
    using ok f d no_unstake_of_user_open[OF ok st none]
    by (intro ledger_ok_append_unstake[where st = st]) (simp_all add: t)
  then show ?thesis by (simp add: s')
qed

lemma ledger_ok_step_other:
  assumes ok: "ledger_ok L"
    and step: "L' = L \<or> (\<exists>t. L' = L @ [t] \<and> transactionId t \<notin> set (map transactionId L)
                 \<and> transaction.type t = k)"
    and k: "k \<noteq> Unstake"
  shows "ledger_ok L'"
proof -
  from step consider "L' = L"
    | t where "L' = L @ [t]" "transactionId t \<notin> set (map transactionId L)"
        "transaction.type t = k"
    by blast
  then show ?thesis
  proof cases
    case 1
    with ok show ?thesis by simp
  next
    case 2
    with ok k show ?thesis using ledger_ok_append_other[of L t] by simp
  qed
qed

lemma handle_keeps_ledger_ok:
  assumes ok: "ledger_ok (transactions s)"
  shows "ledger_ok (transactions (handle s x))"
proof -
  obtain now uuid r where x: "x = (now, uuid, r)" by (cases x)
  show ?thesis
  proof (cases r)
    case (StakeReq user p a)
    show ?thesis
    proof (cases rule: stakeTokens_cases[of s now uuid user p a])
      case failed
      with ok show ?thesis by (simp add: x StakeReq)
    next
      case (saved r')
      from stake_keeps_ledger_ok[OF ok saved] show ?thesis by (simp add: x StakeReq)
    qed
  next
    case (UnstakeReq user tid)
    show ?thesis
    proof (cases rule: unstakeTokens_cases[of s now uuid user tid])
      case failed
      with ok show ?thesis by (simp add: x UnstakeReq)
    next
      case (saved r')
      from unstake_keeps_ledger_ok[OF ok saved] show ?thesis by (simp add: x UnstakeReq)
    qed
  next
    case (DepositReq user p a)
    from ledger_ok_step_other[OF ok depositToPool_transactions[of s now uuid user p a]]
    show ?thesis by (simp add: x DepositReq)
  next
    case (WithdrawReq user p a)
    from ledger_ok_step_other[OF ok withdrawFromPool_transactions[of s now uuid user p a]]
    show ?thesis by (simp add: x WithdrawReq)
  next
    case (CreatePoolReq n t a m l)
    with ok show ?thesis by (simp add: x createPool_transactions)
  next
    case (UpdatePoolReq p n a m l)
    with ok show ?thesis by (simp add: x updatePool_transactions)
  next
    case (DeletePoolReq p)
    with ok show ?thesis by (simp add: x deletePool_transactions)
  qed
qed

lemma ledger_ok_Nil: "ledger_ok []"
  by (simp add: ledger_ok_def)

lemma serial_run_keeps_ledger_ok:
  "ledger_ok (transactions s) \<Longrightarrow> ledger_ok (transactions (serial_run s rs))"
  by (induction rs rule: rev_induct) (simp_all add: serial_run_Nil serial_run_snoc handle_keeps_ledger_ok)

lemma reachable_ledger_ok: "ledger_ok (transactions (serial_run (empty_db us) rs))"
  by (rule serial_run_keeps_ledger_ok) (simp add: empty_db_def ledger_ok_Nil)

lemma distinct_all_equal_short:
  assumes "distinct xs" and eq: "\<And>x y. x \<in> set xs \<Longrightarrow> y \<in> set xs \<Longrightarrow> x = y"
  shows "length xs \<le> 1"
proof (cases xs)
  case Nil
  then show ?thesis by simp
next
  case (Cons a ys)
  show ?thesis
  proof (cases ys)
    case Nil
    with Cons show ?thesis by simp
  next
    case (Cons b zs)
    with \<open>xs = a # ys\<close> assms(1) have "a \<noteq> b" by auto
    moreover from Cons \<open>xs = a # ys\<close> have "a = b" by (intro eq) simp_all
    ultimately show ?thesis by simp
  qed
qed

lemma ledger_ok_at_most_one:
  assumes "ledger_ok L"
  shows "length (filter (references tid) L) \<le> 1"
proof (rule distinct_all_equal_short)
  from assms have "distinct (map transactionId L)" by (simp add: ledger_ok_def)
  then have "distinct L" by (simp add: distinct_map)
  then show "distinct (filter (references tid) L)" by simp
next
  fix x y assume "x \<in> set (filter (references tid) L)" "y \<in> set (filter (references tid) L)"
  then have xy: "x \<in> set L" "y \<in> set L" "transaction.type x = Unstake"
    "transaction.type y = Unstake" "originalTransactionId x = originalTransactionId y"
    by (simp_all add: references_def)
  from assms have "\<forall>u\<in>set L. \<forall>v\<in>set L.
      transaction.type u = Unstake \<and> transaction.type v = Unstake
      \<and> originalTransactionId u = originalTransactionId v \<longrightarrow> u = v"
    by (simp add: ledger_ok_def)
  with xy show "x = y" by blast
qed

lemma unstake_twice:
  assumes "unstakeTokens s now uuid user tid = (Inr r, s1)"
  shows "unstakeTokens s1 now2 uuid2 user tid = (Inl AlreadyUnstakedError, s1)"
proof -
  obtain st pool where
    st: "find_stake s tid user = Some st"
    and r: "fst r = \<lparr>transactionId = uuid, originalTransactionId = Some tid, type = Unstake,
              amount = amount st, timestamp = now, userId = user, poolId = poolId st,
              unlockTime = None\<rparr>"
    and s1: "s1 = s\<lparr>transactions := transactions s @ [fst r],
               pools := (pools s)(poolId st \<mapsto> snd r)\<rparr>"
    using unstakeTokens_success[OF assms] by blast
  have a: "find_stake s1 tid user = Some st"
    using st by (simp add: find_stake_def s1 find_append)
  have b: "find_unstake_of_user s1 tid user \<noteq> None"
    by (simp add: find_unstake_of_user_def s1 find_append r split: option.splits)
  show ?thesis using a b by (auto simp: unstakeTokens_def unstake_read_def)
qed

subsection \<open>Open stakes under an appended event\<close>

lemma is_open_append_other:
  "transaction.type t \<noteq> Unstake \<Longrightarrow> is_open (L @ [t]) e = is_open L e"
  by (auto simp: is_open_def references_def)

lemma is_open_append_unstake:
  "transaction.type t = Unstake \<Longrightarrow> originalTransactionId t = Some tid \<Longrightarrow>
   is_open (L @ [t]) e = (is_open L e \<and> transactionId e \<noteq> tid)"
  by (auto simp: is_open_def references_def)

lemma fresh_is_open:
  assumes ok: "ledger_ok L" and fresh: "transactionId t \<notin> set (map transactionId L)"
  shows "is_open L t"
  unfolding is_open_def
proof
  assume "\<exists>u\<in>set L. references (transactionId t) u"
  then obtain u where u: "u \<in> set L" "transaction.type u = Unstake"
    "originalTransactionId u = Some (transactionId t)"
    by (auto simp: references_def)
  from ok have "\<forall>u\<in>set L. transaction.type u = Unstake \<longrightarrow>
            (\<exists>e\<in>set L. transaction.type e = Stake
               \<and> originalTransactionId u = Some (transactionId e)
               \<and> userId u = userId e \<and> poolId u = poolId e \<and> amount u = amount e)"
    by (simp add: ledger_ok_def)
  with u obtain e where "e \<in> set L" "originalTransactionId u = Some (transactionId e)"
    by blast
  with u(3) have "transactionId t = transactionId e" "e \<in> set L" by simp_all
  then have "transactionId t \<in> set (map transactionId L)" by (simp add: image_iff) blast
  with fresh show False by simp
qed

lemma open_stakes_append_stake:
  assumes "ledger_ok L" "transactionId t \<notin> set (map transactionId L)"
    "transaction.type t = Stake"
  shows "open_stakes (L @ [t]) q = open_stakes L q @ (if poolId t = q then [t] else [])"
  using assms fresh_is_open[of L t]
  by (simp add: open_stakes_def is_open_append_other)

lemma open_stakes_append_unstake:
  assumes "transaction.type t = Unstake" "originalTransactionId t = Some tid"
  shows "open_stakes (L @ [t]) q = filter (\<lambda>e. transactionId e \<noteq> tid) (open_stakes L q)"
  using assms
  by (auto simp: open_stakes_def is_open_append_unstake intro: filter_cong)

lemma open_stakes_append_other:
  assumes "transaction.type t \<noteq> Unstake" "transaction.type t \<noteq> Stake"
  shows "open_stakes (L @ [t]) q = open_stakes L q"
  using assms by (simp add: open_stakes_def is_open_append_other)

lemma open_stakes_distinct:
  "ledger_ok L \<Longrightarrow> distinct (map transactionId (open_stakes L q))"
  by (simp add: ledger_ok_def open_stakes_def distinct_map_filter)

lemma filter_out_one_length:
  "distinct (map f xs) \<Longrightarrow> x \<in> set xs \<Longrightarrow>
   length (filter (\<lambda>e. f e \<noteq> f x) xs) + 1 = length xs"
proof (induction xs)
  case Nil
  then show ?case by simp
next
  case (Cons a xs)
  show ?case
  proof (cases "a = x")
    case True
    with Cons.prems have "f x \<notin> f ` set xs" by simp
    then have "\<forall>e\<in>set xs. f e \<noteq> f x" by (metis imageI)
    then have "filter (\<lambda>e. f e \<noteq> f x) xs = xs" by (simp add: filter_id_conv)
    with True show ?thesis by simp
  next
    case False
    with Cons.prems have "x \<in> set xs" "f a \<noteq> f x" by auto
    with Cons show ?thesis by simp
  qed
qed

lemma filter_out_one_sum:
  "distinct (map f xs) \<Longrightarrow> x \<in> set xs \<Longrightarrow>
   sum_list (map g (filter (\<lambda>e. f e \<noteq> f x) xs)) + g x = (sum_list (map g xs) :: rat)"
proof (induction xs)
  case Nil
  then show ?case by simp
next
  case (Cons a xs)
  show ?case
  proof (cases "a = x")
    case True
    with Cons.prems have "f x \<notin> f ` set xs" by simp
    then have "\<forall>e\<in>set xs. f e \<noteq> f x" by (metis imageI)
    then have "filter (\<lambda>e. f e \<noteq> f x) xs = xs" by (simp add: filter_id_conv)
    with True show ?thesis by simp
  next
    case False
    with Cons.prems have "x \<in> set xs" "f a \<noteq> f x" by auto
    with Cons show ?thesis by simp
  qed
qed

lemma filter_out_none:
  "\<forall>e\<in>set xs. f e \<noteq> k \<Longrightarrow> filter (\<lambda>e. f e \<noteq> k) xs = xs"
  by (simp add: filter_id_conv)

text \<open>What an accepted unstake does to the open stakes of each pool.\<close>

lemma open_stakes_after_unstake:
  assumes ok: "ledger_ok L"
    and st: "st \<in> set L" "transaction.type st = Stake" "is_open L st"
    and t: "transaction.type t = Unstake" "originalTransactionId t = Some (transactionId st)"
  shows "st \<in> set (open_stakes L (poolId st))"
    and "open_stakes (L @ [t]) (poolId st) =
           filter (\<lambda>e. transactionId e \<noteq> transactionId st) (open_stakes L (poolId st))"
    and "q \<noteq> poolId st \<Longrightarrow> open_stakes (L @ [t]) q = open_stakes L q"
proof -
  show "st \<in> set (open_stakes L (poolId st))" using st by (simp add: open_stakes_def)
  show "open_stakes (L @ [t]) (poolId st) =
           filter (\<lambda>e. transactionId e \<noteq> transactionId st) (open_stakes L (poolId st))"
    using t by (rule open_stakes_append_unstake)
  assume q: "q \<noteq> poolId st"
  have "\<forall>e\<in>set (open_stakes L q). transactionId e \<noteq> transactionId st"
  proof
    fix e assume e: "e \<in> set (open_stakes L q)"
    then have "e \<in> set L" "poolId e = q" by (simp_all add: open_stakes_def)
    show "transactionId e \<noteq> transactionId st"
    proof
      assume "transactionId e = transactionId st"
      with ok \<open>e \<in> set L\<close> st(1) have "e = st"
        using same_id_same_tx[of L e st] by (simp add: ledger_ok_def)
      with \<open>poolId e = q\<close> q show False by simp
    qed
  qed
  then show "open_stakes (L @ [t]) q = open_stakes L q"
    using open_stakes_append_unstake[OF t, of L q] by (simp add: filter_id_conv)
qed

subsection \<open>Sums over the ledger\<close>

lemma staked_sum_append:
  "staked_sum (L @ [t]) p =
     staked_sum L p + (if transaction.type t = Stake \<and> poolId t = p then num (amount t) else 0)"
  by (simp add: staked_sum_def)

lemma unstaked_by_pool_append:
  "unstaked_by_pool (L @ [t]) p =
     unstaked_by_pool L p
       + (if transaction.type t = Unstake \<and> poolId t = p then num (amount t) else 0)"
  by (simp add: unstaked_by_pool_def)

lemma unstaked_sum_by_pool:
  assumes ok: "ledger_ok L"
  shows "unstaked_sum L p = unstaked_by_pool L p"
proof -
  have "filter (\<lambda>u. transaction.type u = Unstake
                  \<and> (\<exists>e\<in>set L. transaction.type e = Stake \<and> poolId e = p
                        \<and> originalTransactionId u = Some (transactionId e))) L
        = filter (\<lambda>u. transaction.type u = Unstake \<and> poolId u = p) L"
  proof (rule filter_cong[OF refl])
    fix u assume uL: "u \<in> set L"
    show "(transaction.type u = Unstake
            \<and> (\<exists>e\<in>set L. transaction.type e = Stake \<and> poolId e = p
                  \<and> originalTransactionId u = Some (transactionId e)))
          = (transaction.type u = Unstake \<and> poolId u = p)"
    proof (cases "transaction.type u = Unstake")
      case False
      then show ?thesis by simp
    next
      case True
      from ok have refs: "\<forall>u\<in>set L. transaction.type u = Unstake \<longrightarrow>
            (\<exists>e\<in>set L. transaction.type e = Stake
               \<and> originalTransactionId u = Some (transactionId e)
               \<and> userId u = userId e \<and> poolId u = poolId e \<and> amount u = amount e)"
        and dist: "distinct (map transactionId L)"
        by (simp_all add: ledger_ok_def)
      from refs uL True obtain e0 where e0: "e0 \<in> set L" "transaction.type e0 = Stake"
        "originalTransactionId u = Some (transactionId e0)" "poolId u = poolId e0"
        by blast
      have "(\<exists>e\<in>set L. transaction.type e = Stake \<and> poolId e = p
                  \<and> originalTransactionId u = Some (transactionId e)) = (poolId u = p)"
      proof
        assume "\<exists>e\<in>set L. transaction.type e = Stake \<and> poolId e = p
                  \<and> originalTransactionId u = Some (transactionId e)"
        then obtain e where e: "e \<in> set L" "poolId e = p"
          "originalTransactionId u = Some (transactionId e)" by blast
        with e0 have "transactionId e = transactionId e0" by simp
        with dist e(1) e0(1) have "e = e0" by (rule same_id_same_tx)
        with e e0 show "poolId u = p" by simp
      next
        assume "poolId u = p"
        with e0 show "\<exists>e\<in>set L. transaction.type e = Stake \<and> poolId e = p
                  \<and> originalTransactionId u = Some (transactionId e)" by auto
      qed
      with True show ?thesis by simp
    qed
  qed
  then show ?thesis by (simp add: unstaked_sum_def unstaked_by_pool_def)
qed

lemma elem_le_sum_list:
  "(\<forall>y\<in>set xs. 0 \<le> g y) \<Longrightarrow> x \<in> set xs \<Longrightarrow> g x \<le> (sum_list (map g xs) :: rat)"
proof (induction xs)
  case Nil
  then show ?case by simp
next
  case (Cons a xs)
  have nn: "0 \<le> sum_list (map g xs)" using Cons.prems(1) by (intro sum_list_nonneg) auto
  show ?case
  proof (cases "x = a")
    case True
    with nn show ?thesis by simp
  next
    case False
    with Cons have "g x \<le> sum_list (map g xs)" by simp
    moreover from Cons.prems(1) have "0 \<le> g a" by simp
    ultimately show ?thesis by simp
  qed
qed

lemma js_or_Fin_zero: "js_or (Fin T) (Fin 0) = Fin T"
  by (simp add: js_or_def truthy_def)

lemma Math_max_Fin: "Math_max (Fin a) (Fin b) = Fin (max a b)"
  by (simp add: Math_max_def max_def)

lemma js_add_Fin: "js_add (Fin a) (Fin b) = Fin (double_of (double_of a + double_of b))"
  by simp

lemma js_sub_Fin: "js_sub (Fin a) (Fin b) = Fin (double_of (double_of a - double_of b))"
  by (simp add: js_sub_def double_of_uminus)

lemma staked_total_append:
  "staked_total (L @ [t]) =
     staked_total L + (if transaction.type t = Stake then num (amount t) else 0)"
  by (simp add: staked_total_def)

lemma sum_list_whole:
  "(\<forall>x\<in>set xs. \<exists>n. g x = of_int n \<and> 0 \<le> n) \<Longrightarrow>
   \<exists>k. sum_list (map g xs) = (of_int k :: rat) \<and> 0 \<le> k"
proof (induction xs)
  case Nil
  have "sum_list (map g []) = (of_int 0 :: rat) \<and> (0::int) \<le> 0" by simp
  thus ?case by blast
next
  case (Cons a xs)
  then obtain k where k: "sum_list (map g xs) = of_int k" "0 \<le> k" by auto
  from Cons.prems obtain n where n: "g a = of_int n" "0 \<le> n" by auto
  have "sum_list (map g (a # xs)) = of_int (n + k) \<and> 0 \<le> n + k" using k n by simp
  thus ?case by blast
qed

lemma sum_list_filter_le:
  "(\<forall>x\<in>set xs. 0 \<le> g x) \<Longrightarrow>
   sum_list (map g (filter P xs)) \<le> (sum_list (map g xs) :: rat)"
  by (induction xs) (auto intro: add_mono order_trans)

lemma totals_save:
  "totals (s\<lparr>transactions := L, pools := (pools s)(p \<mapsto> pool)\<rparr>) = (totals s)(p \<mapsto> totalStaked pool)"
  by (auto simp: totals_def fun_eq_iff)

lemma totals_pools: "pools s p = Some pool \<Longrightarrow> totals s p = Some (totalStaked pool)"
  by (simp add: totals_def)

subsection \<open>The totals follow the ledger\<close>

lemma ledger_totals_okD:
  assumes "ledger_totals_ok L tot"
  shows "ledger_ok L"
    and "\<And>e. e \<in> set L \<Longrightarrow> transaction.type e = Stake \<Longrightarrow>
           \<exists>n. amount e = Fin (of_int n) \<and> 0 < n"
    and "\<And>e. e \<in> set L \<Longrightarrow> transaction.type e = Stake \<Longrightarrow> poolId e \<in> dom tot"
    and "\<And>p. staked_sum L p - unstaked_by_pool L p = open_sum L p"
    and "\<And>p t. tot p = Some t \<Longrightarrow> t = Fin (open_sum L p)"
    and "staked_total L \<le> 2 ^ 53"
  using assms unfolding ledger_totals_ok_def by blast+

lemma ledger_totals_okI:
  assumes "ledger_ok L"
    and "\<And>e. e \<in> set L \<Longrightarrow> transaction.type e = Stake \<Longrightarrow>
           \<exists>n. amount e = Fin (of_int n) \<and> 0 < n"
    and "\<And>e. e \<in> set L \<Longrightarrow> transaction.type e = Stake \<Longrightarrow> poolId e \<in> dom tot"
    and "\<And>p. staked_sum L p - unstaked_by_pool L p = open_sum L p"
    and "\<And>p t. tot p = Some t \<Longrightarrow> t = Fin (open_sum L p)"
    and "staked_total L \<le> 2 ^ 53"
  shows "ledger_totals_ok L tot"
  using assms unfolding ledger_totals_ok_def by blast

lemma open_sum_whole:
  assumes "\<And>e. e \<in> set L \<Longrightarrow> transaction.type e = Stake \<Longrightarrow>
             \<exists>n. amount e = Fin (of_int n) \<and> 0 < n"
  shows "\<exists>k. open_sum L p = of_int k \<and> 0 \<le> k"
  unfolding open_sum_def
proof (rule sum_list_whole, rule ballI)
  fix e assume "e \<in> set (open_stakes L p)"
  hence "e \<in> set L" "transaction.type e = Stake" by (simp_all add: open_stakes_def)
  from assms [OF this] obtain n where "amount e = Fin (of_int n)" "0 < n" by blast
  hence "num (amount e) = of_int n \<and> 0 \<le> n" by simp
  thus "\<exists>n. num (amount e) = of_int n \<and> 0 \<le> n" by blast
qed

lemma open_sum_le_staked_total:
  assumes "\<And>e. e \<in> set L \<Longrightarrow> transaction.type e = Stake \<Longrightarrow>
             \<exists>n. amount e = Fin (of_int n) \<and> 0 < n"
  shows "open_sum L p \<le> staked_total L"
proof -
  have "open_stakes L p =
      filter (\<lambda>e. poolId e = p \<and> is_open L e) (filter (\<lambda>e. transaction.type e = Stake) L)"
    by (simp add: open_stakes_def)
  moreover have "\<forall>e\<in>set (filter (\<lambda>e. transaction.type e = Stake) L). 0 \<le> num (amount e)"
  proof
    fix e assume "e \<in> set (filter (\<lambda>e. transaction.type e = Stake) L)"
    hence "e \<in> set L" "transaction.type e = Stake" by simp_all
    from assms [OF this] show "0 \<le> num (amount e)" by auto
  qed
  ultimately show ?thesis
    unfolding open_sum_def staked_total_def by (simp only: sum_list_filter_le)
qed

lemma open_sum_append_other:
  "transaction.type t \<noteq> Unstake \<Longrightarrow> transaction.type t \<noteq> Stake \<Longrightarrow>
   open_sum (L @ [t]) q = open_sum L q"
  by (simp add: open_sum_def open_stakes_append_other)

lemma open_sum_append_stake:
  "ledger_ok L \<Longrightarrow> transactionId t \<notin> set (map transactionId L) \<Longrightarrow>
   transaction.type t = Stake \<Longrightarrow>
   open_sum (L @ [t]) q = open_sum L q + (if poolId t = q then num (amount t) else 0)"
  by (simp add: open_sum_def open_stakes_append_stake)

lemma open_sum_append_unstake:
  assumes ok: "ledger_ok L"
    and st: "st \<in> set L" "transaction.type st = Stake" "is_open L st"
    and t: "transaction.type t = Unstake" "originalTransactionId t = Some (transactionId st)"
  shows "open_sum (L @ [t]) q =
           open_sum L q - (if q = poolId st then num (amount st) else 0)"
proof (cases "q = poolId st")
  case True
  have "sum_list (map (\<lambda>e. num (amount e))
          (filter (\<lambda>e. transactionId e \<noteq> transactionId st) (open_stakes L (poolId st))))
        + num (amount st)
        = sum_list (map (\<lambda>e. num (amount e)) (open_stakes L (poolId st)))"
    using open_stakes_distinct[OF ok] open_stakes_after_unstake(1)[OF ok st t]
    by (rule filter_out_one_sum)
  then show ?thesis
    using True open_stakes_after_unstake(2)[OF ok st t] by (simp add: open_sum_def)
next
  case False
  then show ?thesis
    using open_stakes_after_unstake(3)[OF ok st t] by (simp add: open_sum_def)
qed

lemma open_stake_amount_le_sum:
  assumes pos: "\<And>e. e \<in> set L \<Longrightarrow> transaction.type e = Stake \<Longrightarrow>
             \<exists>n. amount e = Fin (of_int n) \<and> 0 < n"
    and st: "st \<in> set L" "transaction.type st = Stake" "is_open L st"
  shows "num (amount st) \<le> open_sum L (poolId st)"
  unfolding open_sum_def
proof (rule elem_le_sum_list)
  show "\<forall>y\<in>set (open_stakes L (poolId st)). 0 \<le> num (amount y)"
  proof
    fix y assume "y \<in> set (open_stakes L (poolId st))"
    then have "y \<in> set L" "transaction.type y = Stake" by (simp_all add: open_stakes_def)
    from pos[OF this] show "0 \<le> num (amount y)" by auto
  qed
  show "st \<in> set (open_stakes L (poolId st))" using st by (simp add: open_stakes_def)
qed

lemma totals_ok_append_other:
  assumes inv: "ledger_totals_ok L tot"
    and fresh: "transactionId t \<notin> set (map transactionId L)"
    and ty: "transaction.type t \<noteq> Unstake" "transaction.type t \<noteq> Stake"
  shows "ledger_totals_ok (L @ [t]) tot"
proof (rule ledger_totals_okI)
  note d = ledger_totals_okD[OF inv]
  show "ledger_ok (L @ [t])" using d(1) fresh ty(1) by (rule ledger_ok_append_other)
  show "\<exists>n. amount e = Fin (of_int n) \<and> 0 < n"
    if "e \<in> set (L @ [t])" "transaction.type e = Stake" for e
    using that ty d(2)[of e] by auto
  show "poolId e \<in> dom tot" if "e \<in> set (L @ [t])" "transaction.type e = Stake" for e
    using that ty d(3)[of e] by auto
  show "staked_sum (L @ [t]) p - unstaked_by_pool (L @ [t]) p = open_sum (L @ [t]) p" for p
    using ty d(4)[of p]
    by (simp add: staked_sum_append unstaked_by_pool_append open_sum_append_other)
  show "v = Fin (open_sum (L @ [t]) p)" if "tot p = Some v" for p v
    using that ty d(5)[of p v] by (simp add: open_sum_append_other)
  show "staked_total (L @ [t]) \<le> 2 ^ 53" using d(6) ty by (simp add: staked_total_append)
qed

lemma totals_ok_new_pool:
  assumes inv: "ledger_totals_ok L tot" and new: "pid \<notin> dom tot"
  shows "ledger_totals_ok L (tot(pid \<mapsto> Fin 0))"
proof (rule ledger_totals_okI)
  note d = ledger_totals_okD[OF inv]
  show "ledger_ok L" by (rule d(1))
  show "\<exists>n. amount e = Fin (of_int n) \<and> 0 < n"
    if "e \<in> set L" "transaction.type e = Stake" for e
    using that by (rule d(2))
  show "poolId e \<in> dom (tot(pid \<mapsto> Fin 0))" if "e \<in> set L" "transaction.type e = Stake" for e
    using d(3)[OF that] by simp
  show "staked_sum L p - unstaked_by_pool L p = open_sum L p" for p by (rule d(4))
  show "v = Fin (open_sum L p)" if "(tot(pid \<mapsto> Fin 0)) p = Some v" for p v
  proof (cases "p = pid")
    case True
    have "open_stakes L pid = []"
      unfolding open_stakes_def filter_empty_conv using d(3) new by blast
    with that True show ?thesis by (simp add: open_sum_def)
  next
    case False
    with that d(5)[of p v] show ?thesis by simp
  qed
  show "staked_total L \<le> 2 ^ 53" by (rule d(6))
qed

lemma totals_ok_stake:
  assumes inv: "ledger_totals_ok L tot"
    and fresh: "transactionId t \<notin> set (map transactionId L)"
    and t: "transaction.type t = Stake" "amount t = Fin (of_int n)" "0 < n"
    and bound: "staked_total L + of_int n \<le> 2 ^ 53"
    and old: "tot (poolId t) = Some T0"
  shows "ledger_totals_ok (L @ [t]) (tot(poolId t \<mapsto> js_add (js_or T0 (Fin 0)) (Fin (of_int n))))"
proof (rule ledger_totals_okI)
  note d = ledger_totals_okD[OF inv]
  from d(5)[OF old] have T0: "T0 = Fin (open_sum L (poolId t))" .
  from open_sum_whole [of L "poolId t"] d(2) obtain k where
    k: "open_sum L (poolId t) = of_int k" "0 \<le> k" by blast
  have "(of_int k :: rat) \<le> staked_total L"
    using open_sum_le_staked_total [of L "poolId t"] d(2) k(1) by simp
  hence "(of_int (k + n) :: rat) \<le> of_int (2 ^ 53)" using bound by simp
  hence kn: "k + n \<le> 2 ^ 53" by (simp only: of_int_le_iff)
  have new: "js_add (js_or T0 (Fin 0)) (Fin (of_int n)) = Fin (of_int (k + n))"
    unfolding T0 k(1) js_or_Fin_zero using k(2) t(3) kn by (intro js_add_whole) simp_all
  show "ledger_ok (L @ [t])" using d(1) fresh t(1) by (intro ledger_ok_append_other) simp_all
  show "\<exists>n. amount e = Fin (of_int n) \<and> 0 < n"
    if "e \<in> set (L @ [t])" "transaction.type e = Stake" for e
    using that t d(2)[of e] by auto
  show "poolId e \<in> dom (tot(poolId t \<mapsto> js_add (js_or T0 (Fin 0)) (Fin (of_int n))))"
    if "e \<in> set (L @ [t])" "transaction.type e = Stake" for e
    using that d(3)[of e] by auto
  show "staked_sum (L @ [t]) p - unstaked_by_pool (L @ [t]) p = open_sum (L @ [t]) p" for p
    using t d(4)[of p] open_sum_append_stake[OF d(1) fresh t(1), of p]
    by (simp add: staked_sum_append unstaked_by_pool_append)
  show "v = Fin (open_sum (L @ [t]) p)"
    if "(tot(poolId t \<mapsto> js_add (js_or T0 (Fin 0)) (Fin (of_int n)))) p = Some v" for p v
  proof (cases "p = poolId t")
    case True
    with that t show ?thesis
      using open_sum_append_stake[OF d(1) fresh t(1), of p]
      by (simp add: new k(1))
  next
    case False
    with that d(5)[of p v] open_sum_append_stake[OF d(1) fresh t(1), of p]
    show ?thesis by simp
  qed
  show "staked_total (L @ [t]) \<le> 2 ^ 53" using bound t by (simp add: staked_total_append)
qed

lemma totals_ok_unstake:
  assumes inv: "ledger_totals_ok L tot"
    and fresh: "transactionId t \<notin> set (map transactionId L)"
    and t: "transaction.type t = Unstake" "originalTransactionId t = Some (transactionId st)"
      "userId t = userId st" "poolId t = poolId st" "amount t = amount st"
    and st: "st \<in> set L" "transaction.type st = Stake" "is_open L st"
    and old: "tot (poolId st) = Some T0"
  shows "ledger_totals_ok (L @ [t])
           (tot(poolId st \<mapsto> Math_max (Fin 0) (js_sub (js_or T0 (Fin 0)) (amount st))))"
proof (rule ledger_totals_okI)
  note d = ledger_totals_okD[OF inv]
  from d(5)[OF old] have T0: "T0 = Fin (open_sum L (poolId st))" .
  from d(2)[OF st(1,2)] obtain n where n: "amount st = Fin (of_int n)" "0 < n" by blast
  define x :: rat where "x = of_int n"
  have x: "amount st = Fin x" "0 < x" using n by (simp_all add: x_def)
  have le: "x \<le> open_sum L (poolId st)"
    using open_stake_amount_le_sum[of L st] d(2) st x by simp
  from open_sum_whole [of L "poolId st"] d(2) obtain k where
    k: "open_sum L (poolId st) = of_int k" "0 \<le> k" by blast
  have "(of_int k :: rat) \<le> staked_total L"
    using open_sum_le_staked_total [of L "poolId st"] d(2) k(1) by simp
  hence "(of_int k :: rat) \<le> of_int (2 ^ 53)" using d(6) by simp
  hence k53: "k \<le> 2 ^ 53" by (simp only: of_int_le_iff)
  have "(of_int n :: rat) \<le> of_int k" using le by (simp add: x_def k(1))
  hence nk: "n \<le> k" by (simp only: of_int_le_iff)
  have "js_sub (Fin (of_int k)) (Fin (of_int n)) = Fin (of_int (k - n))"
    using k(2) k53 n(2) nk by (intro js_sub_whole) simp_all
  hence new: "Math_max (Fin 0) (js_sub (js_or T0 (Fin 0)) (Fin x))
      = Fin (open_sum L (poolId st) - x)"
    unfolding T0 k(1) js_or_Fin_zero x_def using nk by (simp add: Math_max_Fin)
  note os = open_sum_append_unstake[OF d(1) st t(1,2)]
  show "ledger_ok (L @ [t])" using d(1) fresh t st by (rule ledger_ok_append_unstake)
  show "\<exists>n. amount e = Fin (of_int n) \<and> 0 < n"
    if "e \<in> set (L @ [t])" "transaction.type e = Stake" for e
    using that t d(2)[of e] by auto
  show "poolId e \<in> dom (tot(poolId st \<mapsto> Math_max (Fin 0) (js_sub (js_or T0 (Fin 0)) (amount st))))"
    if "e \<in> set (L @ [t])" "transaction.type e = Stake" for e
    using that t d(3)[of e] by auto
  show "staked_sum (L @ [t]) p - unstaked_by_pool (L @ [t]) p = open_sum (L @ [t]) p" for p
    using t x d(4)[of p] os[of p]
    by (cases "p = poolId st") (simp_all add: staked_sum_append unstaked_by_pool_append)
  show "v = Fin (open_sum (L @ [t]) p)"
    if "(tot(poolId st \<mapsto> Math_max (Fin 0) (js_sub (js_or T0 (Fin 0)) (amount st)))) p = Some v"
    for p v
  proof (cases "p = poolId st")
    case True
    with that x os[of p] show ?thesis by (simp add: new)
  next
    case False
    with that d(5)[of p v] os[of p] show ?thesis by simp
  qed
  show "staked_total (L @ [t]) \<le> 2 ^ 53" using d(6) t by (simp add: staked_total_append)
qed

subsection \<open>Reachable aggregates\<close>

lemma whole_positive:
  assumes "0 \<le> x" "x = of_int \<lfloor>x\<rfloor>" "js_lt (Fin 0) (Fin x)"
  shows "\<exists>n. x = of_int n \<and> 0 < n"
proof -
  have "0 < x" using assms(3) by simp
  hence "(0::rat) < of_int \<lfloor>x\<rfloor>" using assms(2) by simp
  hence "0 < \<lfloor>x\<rfloor>" by (simp only: of_int_0_less_iff)
  with assms(2) show ?thesis by blast
qed

lemma requested_nonneg: "whole_no_delete r \<Longrightarrow> 0 \<le> requested r"
proof (cases r)
  case (StakeReq user p a)
  assume "whole_no_delete r"
  with StakeReq show ?thesis by (cases a) simp_all
qed simp_all

lemma stake_keeps_aggregates:
  assumes inv: "aggregates_ok s" and whole: "0 \<le> x" "x = of_int \<lfloor>x\<rfloor>"
    and bound: "staked_total (transactions s) + x \<le> 2 ^ 53"
    and r: "stakeTokens s now uuid user p (Fin x) = (Inr r, s')"
  shows "aggregates_ok s' \<and> staked_total (transactions s') = staked_total (transactions s) + x"
proof -
  from stakeTokens_success[OF r] obtain pool where
    pos: "js_lt (Fin 0) (Fin x)" and pool: "pools s p = Some pool"
    and f: "uuid \<notin> set (map transactionId (transactions s))"
    and t: "transactionId (fst r) = uuid" "transaction.type (fst r) = Stake"
      "amount (fst r) = Fin x" "poolId (fst r) = p"
    and sr: "snd r = pool\<lparr>totalStaked := js_add (js_or (totalStaked pool) (Fin 0)) (Fin x),
                           updatedAt := now\<rparr>"
    and s': "s' = s\<lparr>transactions := transactions s @ [fst r], pools := (pools s)(p \<mapsto> snd r)\<rparr>"
    by blast
  from whole_positive[OF whole pos] obtain n where n: "x = of_int n" "0 < n" by blast
  have "ledger_totals_ok (transactions s @ [fst r])
          ((totals s)(poolId (fst r) \<mapsto> js_add (js_or (totalStaked pool) (Fin 0)) (Fin (of_int n))))"
    using inv f t n bound totals_pools[OF pool]
    by (intro totals_ok_stake) (simp_all add: aggregates_ok_def)
  then have "aggregates_ok s'"
    by (simp add: aggregates_ok_def s' totals_save sr t n)
  moreover have "staked_total (transactions s') = staked_total (transactions s) + x"
    by (simp add: s' staked_total_append t)
  ultimately show ?thesis by simp
qed

lemma unstake_keeps_aggregates:
  assumes inv: "aggregates_ok s"
    and r: "unstakeTokens s now uuid user tid = (Inr r, s')"
  shows "aggregates_ok s' \<and> staked_total (transactions s') = staked_total (transactions s)"
proof -
  from unstakeTokens_success[OF r] obtain st pool where
    st: "find_stake s tid user = Some st" and none: "find_unstake_of_user s tid user = None"
    and pool: "pools s (poolId st) = Some pool"
    and f: "uuid \<notin> set (map transactionId (transactions s))"
    and t: "fst r = \<lparr>transactionId = uuid, originalTransactionId = Some tid, type = Unstake,
              amount = amount st, timestamp = now, userId = user, poolId = poolId st,
              unlockTime = None\<rparr>"
    and sr: "snd r = pool\<lparr>totalStaked :=
          Math_max (Fin 0) (js_sub (js_or (totalStaked pool) (Fin 0)) (amount st)),
          updatedAt := now\<rparr>"
    and s': "s' = s\<lparr>transactions := transactions s @ [fst r],
             pools := (pools s)(poolId st \<mapsto> snd r)\<rparr>"
    by blast
  from inv have ok: "ledger_ok (transactions s)"
    by (simp add: aggregates_ok_def ledger_totals_ok_def)
  from find_stake_SomeD[OF st] have d: "st \<in> set (transactions s)" "transactionId st = tid"
    "transaction.type st = Stake" "userId st = user" by blast+
  have "ledger_totals_ok (transactions s @ [fst r])
          ((totals s)(poolId st \<mapsto>
             Math_max (Fin 0) (js_sub (js_or (totalStaked pool) (Fin 0)) (amount st))))"
    using inv f d no_unstake_of_user_open[OF ok st none] totals_pools[OF pool]
    by (intro totals_ok_unstake) (simp_all add: aggregates_ok_def t)
  then have "aggregates_ok s'"
    by (simp add: aggregates_ok_def s' totals_save sr)
  moreover have "staked_total (transactions s') = staked_total (transactions s)"
    by (simp add: s' staked_total_append t)
  ultimately show ?thesis by simp
qed

lemma other_keeps_aggregates:
  assumes inv: "aggregates_ok s"
    and tr: "transactions s' = transactions s
       \<or> (\<exists>t. transactions s' = transactions s @ [t]
            \<and> transactionId t \<notin> set (map transactionId (transactions s))
            \<and> transaction.type t = k)"
    and k: "k \<noteq> Unstake" "k \<noteq> Stake"
    and tot: "totals s' = totals s"
  shows "aggregates_ok s' \<and> staked_total (transactions s') = staked_total (transactions s)"
proof -
  from tr consider "transactions s' = transactions s"
    | t where "transactions s' = transactions s @ [t]"
        "transactionId t \<notin> set (map transactionId (transactions s))"
        "transaction.type t = k"
    by blast
  then show ?thesis
  proof cases
    case 1
    with inv tot show ?thesis by (simp add: aggregates_ok_def)
  next
    case 2
    with inv k have "ledger_totals_ok (transactions s @ [t]) (totals s)"
      by (intro totals_ok_append_other) (simp_all add: aggregates_ok_def)
    with 2 tot k show ?thesis by (simp add: aggregates_ok_def staked_total_append)
  qed
qed

lemma create_keeps_aggregates:
  assumes inv: "aggregates_ok s"
  shows "aggregates_ok (snd (createPool s now pid n t a m l))"
proof -
  from createPool_totals[of s now pid n t a m l]
  consider "totals (snd (createPool s now pid n t a m l)) = totals s"
    | "pid \<notin> dom (totals s)"
      "totals (snd (createPool s now pid n t a m l)) = (totals s)(pid \<mapsto> Fin 0)"
    by blast
  then show ?thesis
  proof cases
    case 1
    with inv show ?thesis by (simp add: aggregates_ok_def createPool_transactions)
  next
    case 2
    with inv have "ledger_totals_ok (transactions s) ((totals s)(pid \<mapsto> Fin 0))"
      by (intro totals_ok_new_pool) (simp_all add: aggregates_ok_def)
    with 2 show ?thesis by (simp add: aggregates_ok_def createPool_transactions)
  qed
qed

lemma handle_keeps_aggregates:
  assumes inv: "aggregates_ok s" and whole: "whole_no_delete (snd (snd x))"
    and bound: "staked_total (transactions s) + requested (snd (snd x)) \<le> 2 ^ 53"
  shows "aggregates_ok (handle s x)
       \<and> staked_total (transactions (handle s x))
           \<le> staked_total (transactions s) + requested (snd (snd x))"
proof -
  obtain now uuid r where x: "x = (now, uuid, r)" by (cases x)
  show ?thesis
  proof (cases r)
    case (StakeReq user p a)
    with whole x obtain v where a: "a = Fin v" "0 \<le> v" "v = of_int \<lfloor>v\<rfloor>"
      by (cases a) simp_all
    show ?thesis
    proof (cases rule: stakeTokens_cases[of s now uuid user p a])
      case failed
      with inv a show ?thesis by (simp add: x StakeReq)
    next
      case (saved r')
      from stake_keeps_aggregates[OF inv a(2,3) _ saved[unfolded a(1)]] bound
      show ?thesis by (simp add: x StakeReq a(1))
    qed
  next
    case (UnstakeReq user tid)
    show ?thesis
    proof (cases rule: unstakeTokens_cases[of s now uuid user tid])
      case failed
      with inv show ?thesis by (simp add: x UnstakeReq)
    next
      case (saved r')
      from unstake_keeps_aggregates[OF inv saved] show ?thesis by (simp add: x UnstakeReq)
    qed
  next
    case (DepositReq user p a)
    have "aggregates_ok (snd (depositToPool s now uuid user p a))
        \<and> staked_total (transactions (snd (depositToPool s now uuid user p a)))
            = staked_total (transactions s)"
      using inv depositToPool_transactions[of s now uuid user p a]
      by (rule other_keeps_aggregates) (simp_all add: depositToPool_totals)
    then show ?thesis by (simp add: x DepositReq)
  next
    case (WithdrawReq user p a)
    have "aggregates_ok (snd (withdrawFromPool s now uuid user p a))
        \<and> staked_total (transactions (snd (withdrawFromPool s now uuid user p a)))
            = staked_total (transactions s)"
      using inv withdrawFromPool_transactions[of s now uuid user p a]
      by (rule other_keeps_aggregates) (simp_all add: withdrawFromPool_totals)
    then show ?thesis by (simp add: x WithdrawReq)
  next
    case (CreatePoolReq n t a m l)
    with create_keeps_aggregates[OF inv] show ?thesis by (simp add: x createPool_transactions)
  next
    case (UpdatePoolReq p n a m l)
    with inv show ?thesis
      by (simp add: x aggregates_ok_def updatePool_transactions updatePool_totals)
  next
    case (DeletePoolReq p)
    with whole x show ?thesis by simp
  qed
qed

lemma empty_aggregates_ok: "aggregates_ok (empty_db us)"
  by (simp add: aggregates_ok_def ledger_totals_ok_def empty_db_def ledger_ok_Nil totals_def
      staked_sum_def unstaked_by_pool_def open_sum_def open_stakes_def staked_total_def)

lemma reachable_aggregates_bound:
  "\<forall>x\<in>set rs. whole_no_delete (snd (snd x)) \<Longrightarrow> requested_total rs \<le> 2 ^ 53 \<Longrightarrow>
   aggregates_ok (serial_run (empty_db us) rs)
   \<and> staked_total (transactions (serial_run (empty_db us) rs)) \<le> requested_total rs"
proof (induction rs rule: rev_induct)
  case Nil
  show ?case
    by (simp add: serial_run_Nil empty_aggregates_ok requested_total_def)
      (simp add: empty_db_def staked_total_def)
next
  case (snoc x xs)
  have w: "\<forall>y\<in>set xs. whole_no_delete (snd (snd y))" "whole_no_delete (snd (snd x))"
    using snoc.prems(1) by simp_all
  have tot: "requested_total (xs @ [x]) = requested_total xs + requested (snd (snd x))"
    by (simp add: requested_total_def)
  have "requested_total xs \<le> 2 ^ 53"
    using snoc.prems(2) requested_nonneg[OF w(2)] unfolding tot by linarith
  from snoc.IH[OF w(1) this]
  have ih: "aggregates_ok (serial_run (empty_db us) xs)"
    "staked_total (transactions (serial_run (empty_db us) xs)) \<le> requested_total xs"
    by simp_all
  have "staked_total (transactions (serial_run (empty_db us) xs)) + requested (snd (snd x))
      \<le> 2 ^ 53"
    using ih(2) snoc.prems(2) unfolding tot by linarith
  from handle_keeps_aggregates[OF ih(1) w(2) this] ih(2)
  show ?case unfolding tot serial_run_snoc by linarith
qed

lemma reachable_aggregates_ok:
  "\<forall>x\<in>set rs. whole_no_delete (snd (snd x)) \<Longrightarrow> requested_total rs \<le> 2 ^ 53 \<Longrightarrow>
   aggregates_ok (serial_run (empty_db us) rs)"
  using reachable_aggregates_bound by blast

lemma aggregates_total:
  assumes inv: "aggregates_ok s" and pool: "pools s p = Some pool"
  shows "totalStaked pool = Fin (staked_sum (transactions s) p - unstaked_sum (transactions s) p)"
proof -
  from inv have d: "ledger_totals_ok (transactions s) (totals s)" by (simp add: aggregates_ok_def)
  from ledger_totals_okD(5)[OF d totals_pools[OF pool]]
  have "totalStaked pool = Fin (open_sum (transactions s) p)" .
  with ledger_totals_okD(4)[OF d, of p] unstaked_sum_by_pool[OF ledger_totals_okD(1)[OF d], of p]
  show ?thesis by simp
qed

subsection \<open>The example runs\<close>

text \<open>The doubles that the examples below meet.\<close>

lemma double_value_1:
  "double_of (1 / 36028797018963968)
     = 1 / 36028797018963968"
  using double_of_eqI [of "1 / 36028797018963968"
      "- 55" 4503599627370496]
  by (simp add: power_int_minus)

lemma double_value_2:
  "double_of (27 / 1000000)
     = 3984496719921263 / 147573952589676412928"
  using double_of_eqI [of "27 / 1000000"
      "- 16" 7968993439842526]
  by (simp add: power_int_minus)

lemma double_value_3:
  "double_of (18208602681985149465071461812415 / 664613997892457936451903530140172288)
     = 2021560994379129 / 73786976294838206464"
  using double_of_eqI [of "18208602681985149465071461812415 / 664613997892457936451903530140172288"
      "- 16" 8086243977516516]
  by (simp add: power_int_minus)

lemma double_value_4:
  "double_of (36963463444429849551808027046265 / 1329227995784915872903807060280344576)
     = 8207537637179263 / 295147905179352825856"
  using double_of_eqI [of "36963463444429849551808027046265 / 1329227995784915872903807060280344576"
      "- 16" 8207537637179263]
  by (simp add: power_int_minus)

lemma double_value_5:
  "double_of (3984496719921263 / 73786976294838206464)
     = 3984496719921263 / 73786976294838206464"
  using double_of_eqI [of "3984496719921263 / 73786976294838206464"
      "- 15" 7968993439842526]
  by (simp add: power_int_minus)

lemma double_value_6:
  "double_of (18208602681985149465071461812415 / 332306998946228968225951765070086144)
     = 2021560994379129 / 36893488147419103232"
  using double_of_eqI [of "18208602681985149465071461812415 / 332306998946228968225951765070086144"
      "- 15" 8086243977516516]
  by (simp add: power_int_minus)

lemma double_value_7:
  "double_of (1 / 365)
     = 3158689053717389 / 1152921504606846976"
  using double_of_eqI [of "1 / 365"
      "- 9" 6317378107434778]
  by (simp add: power_int_minus)

lemma double_value_8:
  "double_of (3158689053717389 / 1152921504606846976)
     = 3158689053717389 / 1152921504606846976"
  using double_of_eqI [of "3158689053717389 / 1152921504606846976"
      "- 9" 6317378107434778]
  by (simp add: power_int_minus)

lemma double_value_9:
  "double_of (6412138779046299 / 2305843009213693952)
     = 6412138779046299 / 2305843009213693952"
  using double_of_eqI [of "6412138779046299 / 2305843009213693952"
      "- 9" 6412138779046299]
  by (simp add: power_int_minus)

lemma double_value_10:
  "double_of (4571153621781053 / 1643813863990231040)
     = 6412138779046299 / 2305843009213693952"
  using double_of_eqI [of "4571153621781053 / 1643813863990231040"
      "- 9" 6412138779046299]
  by (simp add: power_int_minus)

lemma double_value_11:
  "double_of (1 / 100)
     = 5764607523034235 / 576460752303423488"
  using double_of_eqI [of "1 / 100"
      "- 7" 5764607523034235]
  by (simp add: power_int_minus)

lemma double_value_12:
  "double_of (5764607523034235 / 576460752303423488)
     = 5764607523034235 / 576460752303423488"
  using double_of_eqI [of "5764607523034235 / 576460752303423488"
      "- 7" 5764607523034235]
  by (simp add: power_int_minus)

lemma double_value_13:
  "double_of (1 / 50)
     = 5764607523034235 / 288230376151711744"
  using double_of_eqI [of "1 / 50"
      "- 6" 5764607523034235]
  by (simp add: power_int_minus)

lemma double_value_14:
  "double_of (5764607523034235 / 288230376151711744)
     = 5764607523034235 / 288230376151711744"
  using double_of_eqI [of "5764607523034235 / 288230376151711744"
      "- 6" 5764607523034235]
  by (simp add: power_int_minus)

lemma double_value_15:
  "double_of (1 / 10)
     = 3602879701896397 / 36028797018963968"
  using double_of_eqI [of "1 / 10"
      "- 4" 7205759403792794]
  by (simp add: power_int_minus)

lemma double_value_16:
  "double_of (3602879701896397 / 36028797018963968)
     = 3602879701896397 / 36028797018963968"
  using double_of_eqI [of "3602879701896397 / 36028797018963968"
      "- 4" 7205759403792794]
  by (simp add: power_int_minus)

lemma double_value_17:
  "double_of (1 / 5)
     = 3602879701896397 / 18014398509481984"
  using double_of_eqI [of "1 / 5"
      "- 3" 7205759403792794]
  by (simp add: power_int_minus)

lemma double_value_18:
  "double_of (7205759403792795 / 36028797018963968)
     = 7205759403792795 / 36028797018963968"
  using double_of_eqI [of "7205759403792795 / 36028797018963968"
      "- 3" 7205759403792795]
  by (simp add: power_int_minus)

lemma double_value_19:
  "double_of (10808639105689191 / 36028797018963968) = 1351079888211149 / 4503599627370496"
  by code_simp

lemma double_value_20:
  "double_of (1351079888211149 / 4503599627370496)
     = 1351079888211149 / 4503599627370496"
  using double_of_eqI [of "1351079888211149 / 4503599627370496"
      "- 2" 5404319552844596]
  by (simp add: power_int_minus)

lemma double_value_21:
  "double_of (39 / 50)
     = 3512807709348987 / 4503599627370496"
  using double_of_eqI [of "39 / 50"
      "- 1" 7025615418697974]
  by (simp add: power_int_minus)

lemma double_value_22:
  "double_of (3512807709348987 / 4503599627370496)
     = 3512807709348987 / 4503599627370496"
  using double_of_eqI [of "3512807709348987 / 4503599627370496"
      "- 1" 7025615418697974]
  by (simp add: power_int_minus)

lemma double_value_23:
  "double_of (4571153621781053 / 4503599627370496)
     = 4571153621781053 / 4503599627370496"
  using double_of_eqI [of "4571153621781053 / 4503599627370496"
      0 4571153621781053]
  by (simp add: power_int_minus)

lemma double_value_24:
  "double_of (203 / 200)
     = 4571153621781053 / 4503599627370496"
  using double_of_eqI [of "203 / 200"
      0 4571153621781053]
  by (simp add: power_int_minus)

lemma double_value_25:
  "double_of (4900064838829513 / 1605286976552960)
     = 3436757804768097 / 1125899906842624"
  using double_of_eqI [of "4900064838829513 / 1605286976552960"
      1 6873515609536194]
  by (simp add: power_int_minus)

lemma double_value_26:
  "double_of (3436757804768097 / 1125899906842624)
     = 3436757804768097 / 1125899906842624"
  using double_of_eqI [of "3436757804768097 / 1125899906842624"
      1 6873515609536194]
  by (simp add: power_int_minus)

lemma double_value_27:
  "double_of (39 / 5)
     = 8782019273372467 / 1125899906842624"
  using double_of_eqI [of "39 / 5"
      2 8782019273372467]
  by (simp add: power_int_minus)

lemma double_value_28:
  "double_of (43910096366862335 / 562949953421312)
     = 78"
  using double_of_eqI [of "43910096366862335 / 562949953421312"
      6 5488762045857792]
  by (simp add: power_int_minus)

lemma double_value_29:
  "double_of (96262193 / 86400)
     = 4900064838829513 / 4398046511104"
  using double_of_eqI [of "96262193 / 86400"
      10 4900064838829513]
  by (simp add: power_int_minus)

lemma double_value_30:
  "double_of (4900064838829513 / 4398046511104)
     = 4900064838829513 / 4398046511104"
  using double_of_eqI [of "4900064838829513 / 4398046511104"
      10 4900064838829513]
  by (simp add: power_int_minus)

lemma double_value_31:
  "double_of (53699340699501515625 / 35184372088832)
     = 6555095300232119 / 4294967296"
  using double_of_eqI [of "53699340699501515625 / 35184372088832"
      20 6555095300232119]
  by (simp add: power_int_minus)

lemmas double_values =
  double_value_1 double_value_2 double_value_3 double_value_4 double_value_5
  double_value_6 double_value_7 double_value_8 double_value_9 double_value_10
  double_value_11 double_value_12 double_value_13 double_value_14 double_value_15
  double_value_16 double_value_17 double_value_18 double_value_19 double_value_20
  double_value_21 double_value_22 double_value_23 double_value_24 double_value_25
  double_value_26 double_value_27 double_value_28 double_value_29 double_value_30
  double_value_31

lemma double_of_2_53_plus_1: "double_of 9007199254740993 = 9007199254740992"
  by code_simp

lemmas handler_defs =
  createPool_def stakeTokens_def stake_read_def stake_write_def
  unstakeTokens_def unstake_read_def unstake_write_def save_totalStaked_def
  find_stake_def find_unstake_of_user_def save_transaction_def save_pool_def
  is_ObjectId_def is_hex_digit_def
  truthy_def js_or_def js_sub_def Math_max_def Let_def schema_default_def PoolSchema_def
  demo_pool_def demo_stake_def demo_unstake_def alice_stake_def alice_unstake_def

lemmas eval_defs = serial_run_def empty_db_def handler_defs


lemma demo_run_result: "serial_run (empty_db {alice_id}) demo_run = demo_run_db"
  by (simp add: demo_run_def demo_run_db_def eval_defs)

lemma one_stake_result:
  "serial_run (empty_db {alice_id}) one_stake_run =
     \<lparr>pools = [''p'' \<mapsto> demo_pool\<lparr>totalStaked := Fin 2, updatedAt := 1\<rparr>],
      transactions = [alice_stake\<lparr>amount := Fin 2, timestamp := 1\<rparr>],
      users = {alice_id}\<rparr>"
  by (simp add: one_stake_run_def eval_defs)

lemma two_stakes_result:
  "serial_run (empty_db {alice_id}) two_stakes_run =
     \<lparr>pools = [''p'' \<mapsto> demo_pool\<lparr>totalStaked := Fin 2, updatedAt := 1\<rparr>],
      transactions = [alice_stake\<lparr>amount := Fin 1, timestamp := 1\<rparr>,
                      alice_stake\<lparr>transactionId := ''t2'', amount := Fin 1, timestamp := 1\<rparr>],
      users = {alice_id}\<rparr>"
  by (simp add: two_stakes_run_def eval_defs)

lemma large_run_result: "serial_run (empty_db {alice_id}) large_run = large_run_db"
  by (simp add: large_run_def large_run_db_def eval_defs double_of_2_53_plus_1)

lemma decimal_run_result:
  "serial_run (empty_db {alice_id}) decimal_run =
     \<lparr>pools = [''p'' \<mapsto> demo_pool\<lparr>minStake := Fin (1 / 10),
                 totalStaked := Fin (1 / 36028797018963968), updatedAt := 4\<rparr>],
      transactions =
        [alice_stake\<lparr>amount := Fin (1 / 10), timestamp := 1\<rparr>,
         alice_stake\<lparr>transactionId := ''t2'', amount := Fin (2 / 10), timestamp := 2\<rparr>,
         alice_unstake\<lparr>amount := Fin (1 / 10), timestamp := 3\<rparr>,
         alice_unstake\<lparr>transactionId := ''u2'', originalTransactionId := Some ''t2'',
           amount := Fin (2 / 10), timestamp := 4\<rparr>],
      users = {alice_id}\<rparr>"
  by (simp add: decimal_run_def eval_defs double_values double_of_uminus)


text \<open>
  Two stake requests that overlap: both read the pool of \<open>demo_db\<close>, then both write.
  Both stake events are saved, and the second write of \<open>totalStaked\<close> replaces the
  first.
\<close>

lemma overlapping_stakes_lose_an_update:
  "stake_read (demo_db\<lparr>users := {alice_id}\<rparr>) alice_id ''p'' (Fin 10) = Inr demo_pool
   \<and> stake_read (demo_db\<lparr>users := {alice_id}\<rparr>) alice_id ''p'' (Fin 5) = Inr demo_pool
   \<and> snd (stake_write
        (snd (stake_write (demo_db\<lparr>users := {alice_id}\<rparr>) 1 ''t1'' alice_id ''p'' (Fin 10)
           demo_pool))
        2 ''t2'' alice_id ''p'' (Fin 5) demo_pool)
     = \<lparr>pools = [''p'' \<mapsto> demo_pool\<lparr>totalStaked := Fin 5, updatedAt := 2\<rparr>],
        transactions =
          [alice_stake\<lparr>timestamp := 1\<rparr>,
           alice_stake\<lparr>transactionId := ''t2'', amount := Fin 5, timestamp := 2\<rparr>],
        users = {alice_id}\<rparr>"
  by (simp add: demo_db_def handler_defs)

section \<open>Stake requests\<close>

text \<open>
  C10. The claim has a stake request by a user whom the user store does not hold
  answered with the 404 \<open>User not found\<close>. \<open>stakeTokens\<close> looks the user up with
  \<open>User.findById\<close>, and the id it passes is the \<open>userId\<close> of the token, a uuid: the
  cast to an \<open>ObjectId\<close> throws and the answer is the 500 of the \<open>catch\<close> block,
  whether the user exists or not. So it is for every id that is not written as an
  \<open>ObjectId\<close>, with a valid amount, an existing pool and the minimum met; nothing
  is saved.
\<close>

theorem stake_uuid_server_error:
  assumes "js_lt (Fin 0) amount'"
    and "pools s poolId' = Some pool"
    and "\<not> js_lt amount' (minStake pool)"
    and "\<not> is_ObjectId user"
  shows "stakeTokens s now uuid user poolId' amount' = (Inl ServerError, s)"
  using assms js_lt_zero_valid[of amount'] by (simp add: stakeTokens_def stake_read_def)

theorem stake_uuid_server_error_witness:
  "js_lt (Fin 0) (Fin 10) \<and> pools demo_db ''p'' = Some demo_pool
   \<and> \<not> js_lt (Fin 10) (minStake demo_pool) \<and> \<not> is_ObjectId alice_uuid
   \<and> alice_uuid \<notin> users demo_db
   \<and> stakeTokens demo_db 0 ''t1'' alice_uuid ''p'' (Fin 10) = (Inl ServerError, demo_db)"
  using stake_uuid_server_error[of "Fin 10" demo_db "''p''" demo_pool alice_uuid 0 "''t1''"]
  by (simp add: demo_db_def demo_pool_def is_ObjectId_def)

text \<open>
  C6, as stated: every stake request with an amount strictly below \<open>pool.minStake\<close>
  fails with \<open>BelowMinimumStakeError\<close>. The amount check of \<open>stakeTokens\<close> comes first:
  an amount of \<open>-1\<close> is below the minimum \<open>1\<close> and is answered with
  \<open>Invalid stake amount\<close>.
\<close>

theorem below_minimum_counterexample:
  "js_lt (Fin (- 1)) (minStake demo_pool) \<and> pools demo_db ''p'' = Some demo_pool
   \<and> stakeTokens demo_db 0 ''t1'' ''alice'' ''p'' (Fin (- 1)) = (Inl ValidationError, demo_db)"
  by (simp add: stakeTokens_def stake_read_def demo_db_def demo_pool_def truthy_def)

text \<open>
  C6, amended: for every pool, whatever its liquidity, a stake request whose amount is a
  number greater than zero and strictly below \<open>pool.minStake\<close> fails with
  \<open>BelowMinimumStakeError\<close> naming that minimum; the ledger and the pools are left as
  they were.
\<close>

theorem below_minimum_rejected:
  assumes "js_lt (Fin 0) amount'"
    and "pools s poolId' = Some pool"
    and "js_lt amount' (minStake pool)"
  shows "stakeTokens s now uuid user poolId' amount' =
           (Inl (BelowMinimumStakeError (minStake pool)), s)"
  using assms js_lt_zero_valid[of amount'] by (simp add: stakeTokens_def stake_read_def)

theorem below_minimum_rejected_witness:
  "js_lt (Fin 0) (Fin (1 / 2)) \<and> pools demo_db ''p'' = Some demo_pool
   \<and> js_lt (Fin (1 / 2)) (minStake demo_pool)
   \<and> stakeTokens demo_db 0 ''t1'' ''alice'' ''p'' (Fin (1 / 2)) =
       (Inl (BelowMinimumStakeError (Fin 1)), demo_db)"
  using below_minimum_rejected[of "Fin (1 / 2)" demo_db "''p''" demo_pool 0 "''t1''" "''alice''"]
  by (simp add: demo_db_def demo_pool_def)

section \<open>Pool administration\<close>

text \<open>
  C8. The claim has every amount that is not finite rejected with a validation error.
  \<open>depositToPool\<close> tests \<open>isNaN(amount) || amount <= 0\<close>, which \<open>Infinity\<close> passes:
  the deposit is recorded and the pool's liquidity becomes \<open>Infinity\<close>.
\<close>

theorem deposit_infinity_accepted:
  "\<not> isFinite PInf \<and>
   depositToPool demo_db 0 ''d1'' ''admin'' ''p'' PInf =
     (Inr (\<lparr>transactionId = ''d1'', originalTransactionId = None, type = Deposit,
             amount = PInf, timestamp = 0, userId = ''admin'', poolId = ''p'',
             unlockTime = None\<rparr>, demo_pool\<lparr>liquidity := PInf\<rparr>),
      \<lparr>pools = [''p'' \<mapsto> demo_pool\<lparr>liquidity := PInf\<rparr>],
        transactions = [\<lparr>transactionId = ''d1'', originalTransactionId = None, type = Deposit,
             amount = PInf, timestamp = 0, userId = ''admin'', poolId = ''p'',
             unlockTime = None\<rparr>],
        users = {''alice''}\<rparr>)"
  by (simp add: depositToPool_def demo_db_def demo_pool_def save_transaction_def save_pool_def
      Let_def)

text \<open>
  C7, as stated: a present non-negative APY is accepted, and the new pool starts with
  \<open>stakerCount = 0\<close>. \<open>createPool\<close> tests \<open>!apy\<close>, so an APY of \<open>0\<close> is answered
  like a missing one; and \<open>PoolSchema\<close> declares no path \<open>stakerCount\<close>.
\<close>

theorem createPool_counterexample:
  "createPool (empty_db {}) 0 ''q'' (Some ''P'') (Some ''basic'') (Some (Fin 0)) None None
     = (Inl ValidationError, empty_db {})
   \<and> map_of PoolSchema ''stakerCount'' = None"
  by (simp add: createPool_def truthy_def PoolSchema_def)

text \<open>
  C7, amended: \<open>createPool\<close> fails with a validation error when name, type or APY is
  missing. With a non-empty name, a non-empty type and an APY that is a number other
  than zero it stores a pool with these three values, with \<open>minStake = 0.1\<close> and
  \<open>lockPeriod = 0\<close> when those fields are absent, and with \<open>totalStaked = 0\<close> and
  \<open>liquidity = 0\<close>.
\<close>

theorem createPool_amended:
  "(name' = None \<or> type' = None \<or> apy' = None \<longrightarrow>
      createPool s now pid name' type' apy' minStake' lockPeriod' = (Inl ValidationError, s))
   \<and> (name' = Some n \<and> n \<noteq> [] \<and> type' = Some t \<and> t \<noteq> [] \<and> apy' = Some a \<and> truthy a
        \<and> pid \<notin> dom (pools s) \<longrightarrow>
      (\<exists>p. createPool s now pid name' type' apy' minStake' lockPeriod' = (Inr p, save_pool s pid p)
         \<and> name p = n \<and> pool.type p = t \<and> pool.apy p = a
         \<and> (minStake' = None \<longrightarrow> minStake p = Fin (1 / 10))
         \<and> (lockPeriod' = None \<longrightarrow> lockPeriod p = Fin 0)
         \<and> totalStaked p = Fin 0 \<and> liquidity p = Fin 0))"
  by (auto simp: createPool_def Let_def schema_default_def PoolSchema_def)

theorem createPool_amended_witness:
  "createPool (empty_db {}) 0 ''q'' None (Some ''basic'') (Some (Fin 5)) None None
     = (Inl ValidationError, empty_db {})
   \<and> (\<exists>p. createPool (empty_db {}) 0 ''q'' (Some ''P'') (Some ''basic'') (Some (Fin 5)) None None
            = (Inr p, save_pool (empty_db {}) ''q'' p)
        \<and> name p = ''P'' \<and> pool.type p = ''basic'' \<and> pool.apy p = Fin 5
        \<and> minStake p = Fin (1 / 10) \<and> lockPeriod p = Fin 0
        \<and> totalStaked p = Fin 0 \<and> liquidity p = Fin 0)"
  using createPool_amended[of None "Some ''basic''" "Some (Fin 5)" "empty_db {}" 0 "''q''"
          None None "''P''" "''basic''" "Fin 5"]
        createPool_amended[of "Some ''P''" "Some ''basic''" "Some (Fin 5)" "empty_db {}" 0
          "''q''" None None "''P''" "''basic''" "Fin 5"]
  by (simp add: truthy_def empty_db_def)

section \<open>Unstake requests\<close>



section \<open>Rewards\<close>







text \<open>
  C4. Two unstake requests for one stake that overlap: both run their reads (lines
  580-613) on \<open>open_db\<close>, where the stake is open, before either writes. Each then
  saves its unstake event (line 626), since the events carry fresh identifiers and
  nothing makes \<open>originalTransactionId\<close> unique: both requests are answered with
  success and two unstake events reference the stake. Handled one after the other, the
  second request is answered with \<open>Tokens already unstaked\<close> and changes nothing.
\<close>

theorem overlapping_unstakes_both_admitted:
  "unstake_read open_db 1 ''alice'' ''t1'' = Inr (demo_stake, demo_pool\<lparr>totalStaked := Fin 10\<rparr>)
   \<and> unstake_read open_db 2 ''alice'' ''t1'' = Inr (demo_stake, demo_pool\<lparr>totalStaked := Fin 10\<rparr>)
   \<and> unstake_write open_db 3 ''u1'' ''alice'' ''t1'' demo_stake (demo_pool\<lparr>totalStaked := Fin 10\<rparr>)
       = (Inr (demo_unstake\<lparr>timestamp := 3\<rparr>,
               demo_pool\<lparr>totalStaked := Fin 0, updatedAt := 3\<rparr>), unstaked_once_db)
   \<and> unstake_write unstaked_once_db 4 ''u2'' ''alice'' ''t1'' demo_stake
         (demo_pool\<lparr>totalStaked := Fin 10\<rparr>)
       = (Inr (demo_unstake\<lparr>transactionId := ''u2'', timestamp := 4\<rparr>,
               demo_pool\<lparr>totalStaked := Fin 0, updatedAt := 4\<rparr>), unstaked_twice_db)
   \<and> filter (references ''t1'') (transactions unstaked_twice_db)
       = [demo_unstake\<lparr>timestamp := 3\<rparr>, demo_unstake\<lparr>transactionId := ''u2'', timestamp := 4\<rparr>]
   \<and> unstakeTokens open_db 3 ''u1'' ''alice'' ''t1''
       = (Inr (demo_unstake\<lparr>timestamp := 3\<rparr>,
               demo_pool\<lparr>totalStaked := Fin 0, updatedAt := 3\<rparr>), unstaked_once_db)
   \<and> unstakeTokens unstaked_once_db 4 ''u2'' ''alice'' ''t1''
       = (Inl AlreadyUnstakedError, unstaked_once_db)"
  by (simp add: open_db_def unstaked_once_db_def unstaked_twice_db_def references_def
      handler_defs)

section \<open>Pool aggregates and the ledger\<close>

text \<open>
  C1, as stated: after any sequence of admitted stakes and unstakes,
  \<open>pool.stakerCount\<close> is the number of stake events of the pool that no unstake event
  references. \<open>PoolSchema\<close> declares no such path, and nothing stored in a pool can
  be that number: one stake of 2 and two stakes of 1 leave the same pool documents, with
  one open stake in the first ledger and two in the second.
\<close>

theorem stakerCount_counterexample:
  "pools (serial_run (empty_db {alice_id}) one_stake_run)
     = pools (serial_run (empty_db {alice_id}) two_stakes_run)
   \<and> open_stake_count (transactions (serial_run (empty_db {alice_id}) one_stake_run)) ''p'' = 1
   \<and> open_stake_count (transactions (serial_run (empty_db {alice_id}) two_stakes_run)) ''p'' = 2
   \<and> map_of PoolSchema ''stakerCount'' = None"
  by (simp add: one_stake_result two_stakes_result open_stake_count_def open_stakes_def
      is_open_def references_def alice_stake_def demo_stake_def PoolSchema_def)

text \<open>
  C1, amended: the pool document has no \<open>stakerCount\<close>; an admitted stake or unstake
  changes no field of its pool other than \<open>totalStaked\<close> and the \<open>updatedAt\<close> that
  the library keeps. When requests are handled one at a time, then in every database
  reached from an empty one an admitted stake raises the number of open stake events
  of its pool in the ledger by 1, an admitted unstake lowers it by 1, and the numbers
  of the other pools stay as they are.
\<close>

theorem open_stake_count_steps:
  assumes "s = serial_run (empty_db us) rs"
  shows "(stakeTokens s now uuid user p a = (Inr r, s') \<longrightarrow>
            open_stake_count (transactions s') p = open_stake_count (transactions s) p + 1
            \<and> (\<forall>q. q \<noteq> p \<longrightarrow>
                 open_stake_count (transactions s') q = open_stake_count (transactions s) q)
            \<and> (\<exists>pool. pools s p = Some pool \<and> pools s' p = Some (snd r)
                 \<and> snd r = pool\<lparr>totalStaked := totalStaked (snd r),
                                  updatedAt := updatedAt (snd r)\<rparr>))
       \<and> (unstakeTokens s now uuid user tid = (Inr r, s') \<longrightarrow>
            open_stake_count (transactions s') (poolId (fst r)) + 1
              = open_stake_count (transactions s) (poolId (fst r))
            \<and> (\<forall>q. q \<noteq> poolId (fst r) \<longrightarrow>
                 open_stake_count (transactions s') q = open_stake_count (transactions s) q)
            \<and> (\<exists>pool. pools s (poolId (fst r)) = Some pool
                 \<and> pools s' (poolId (fst r)) = Some (snd r)
                 \<and> snd r = pool\<lparr>totalStaked := totalStaked (snd r),
                                  updatedAt := updatedAt (snd r)\<rparr>))"
proof (intro conjI impI)
  from assms have ok: "ledger_ok (transactions s)" by (simp add: reachable_ledger_ok)
  {
    assume "stakeTokens s now uuid user p a = (Inr r, s')"
    from stakeTokens_success[OF this] obtain pool where
      pool: "pools s p = Some pool"
      and f: "uuid \<notin> set (map transactionId (transactions s))"
      and t: "transactionId (fst r) = uuid" "transaction.type (fst r) = Stake" "poolId (fst r) = p"
      and sr: "snd r = pool\<lparr>totalStaked := js_add (js_or (totalStaked pool) (Fin 0)) a,
                             updatedAt := now\<rparr>"
      and s': "s' = s\<lparr>transactions := transactions s @ [fst r], pools := (pools s)(p \<mapsto> snd r)\<rparr>"
      by blast
    have os: "open_stakes (transactions s') q =
        open_stakes (transactions s) q @ (if p = q then [fst r] else [])" for q
      using open_stakes_append_stake[OF ok, of "fst r" q] f t by (simp add: s')
    show "open_stake_count (transactions s') p = open_stake_count (transactions s) p + 1"
      by (simp add: open_stake_count_def os)
    show "\<forall>q. q \<noteq> p \<longrightarrow>
        open_stake_count (transactions s') q = open_stake_count (transactions s) q"
      by (simp add: open_stake_count_def os)
    show "\<exists>pool. pools s p = Some pool \<and> pools s' p = Some (snd r)
        \<and> snd r = pool\<lparr>totalStaked := totalStaked (snd r), updatedAt := updatedAt (snd r)\<rparr>"
      using pool sr by (simp add: s')
  }
  {
    assume "unstakeTokens s now uuid user tid = (Inr r, s')"
    from unstakeTokens_success[OF this] obtain st pool where
      st: "find_stake s tid user = Some st" and none: "find_unstake_of_user s tid user = None"
      and pool: "pools s (poolId st) = Some pool"
      and t: "fst r = \<lparr>transactionId = uuid, originalTransactionId = Some tid, type = Unstake,
              amount = amount st, timestamp = now, userId = user, poolId = poolId st,
              unlockTime = None\<rparr>"
      and sr: "snd r = pool\<lparr>totalStaked :=
          Math_max (Fin 0) (js_sub (js_or (totalStaked pool) (Fin 0)) (amount st)),
          updatedAt := now\<rparr>"
      and s': "s' = s\<lparr>transactions := transactions s @ [fst r],
             pools := (pools s)(poolId st \<mapsto> snd r)\<rparr>"
      by blast
    from find_stake_SomeD[OF st] have d: "st \<in> set (transactions s)" "transactionId st = tid"
      "transaction.type st = Stake" by blast+
    have tt: "transaction.type (fst r) = Unstake"
      "originalTransactionId (fst r) = Some (transactionId st)" "poolId (fst r) = poolId st"
      by (simp_all add: t d)
    note open_st = no_unstake_of_user_open[OF ok st none]
    note after = open_stakes_after_unstake[OF ok d(1) d(3) open_st tt(1,2)]
    have "length (filter (\<lambda>e. transactionId e \<noteq> transactionId st)
            (open_stakes (transactions s) (poolId st))) + 1
          = length (open_stakes (transactions s) (poolId st))"
      using open_stakes_distinct[OF ok] after(1) by (rule filter_out_one_length)
    then show "open_stake_count (transactions s') (poolId (fst r)) + 1
              = open_stake_count (transactions s) (poolId (fst r))"
      using after(2) by (simp add: open_stake_count_def s' tt(3))
    show "\<forall>q. q \<noteq> poolId (fst r) \<longrightarrow>
        open_stake_count (transactions s') q = open_stake_count (transactions s) q"
      using after(3) by (simp add: open_stake_count_def s' tt(3))
    show "\<exists>pool. pools s (poolId (fst r)) = Some pool
        \<and> pools s' (poolId (fst r)) = Some (snd r)
        \<and> snd r = pool\<lparr>totalStaked := totalStaked (snd r), updatedAt := updatedAt (snd r)\<rparr>"
      using pool sr by (simp add: tt(3) s')
  }
qed

theorem open_stake_count_steps_witness:
  "open_stake_count (transactions (serial_run (empty_db {alice_id}) demo_run)) ''p'' = 1
   \<and> open_stake_count (transactions (snd
        (stakeTokens (serial_run (empty_db {alice_id}) demo_run) 5 ''t3'' alice_id ''p'' (Fin 2))))
        ''p'' = 2
   \<and> open_stake_count (transactions (snd
        (unstakeTokens (serial_run (empty_db {alice_id}) demo_run) 5 ''u2'' alice_id ''t2'')))
        ''p'' = 0
   \<and> snd (projr (fst
        (stakeTokens (serial_run (empty_db {alice_id}) demo_run) 5 ''t3'' alice_id ''p'' (Fin 2))))
       = demo_pool\<lparr>totalStaked := Fin 7, updatedAt := 5\<rparr>"
proof -
  let ?s = "serial_run (empty_db {alice_id}) demo_run"
  let ?X = "stakeTokens ?s 5 ''t3'' alice_id ''p'' (Fin 2)"
  let ?Y = "unstakeTokens ?s 5 ''u2'' alice_id ''t2''"
  have c: "open_stake_count (transactions ?s) ''p'' = 1"
    by (simp add: demo_run_result demo_run_db_def open_stake_count_def open_stakes_def
        is_open_def references_def alice_stake_def alice_unstake_def demo_stake_def
        demo_unstake_def)
  have x: "?X = (Inr (projr (fst ?X)), snd ?X)"
    by (simp add: demo_run_result demo_run_db_def handler_defs)
  have y: "?Y = (Inr (projr (fst ?Y)), snd ?Y)"
    by (simp add: demo_run_result demo_run_db_def handler_defs)
  have yp: "poolId (fst (projr (fst ?Y))) = ''p''"
    by (simp add: demo_run_result demo_run_db_def handler_defs)
  have xp: "snd (projr (fst ?X)) = demo_pool\<lparr>totalStaked := Fin 7, updatedAt := 5\<rparr>"
    by (simp add: demo_run_result demo_run_db_def handler_defs)
  from open_stake_count_steps[where s = ?s and us = "{alice_id}" and rs = demo_run
      and now = 5 and uuid = "''t3''" and user = alice_id and p = "''p''" and a = "Fin 2"
      and r = "projr (fst ?X)" and s' = "snd ?X"] x c
  have a: "open_stake_count (transactions (snd ?X)) ''p'' = 2" by simp
  from open_stake_count_steps[where s = ?s and us = "{alice_id}" and rs = demo_run
      and now = 5 and uuid = "''u2''" and user = alice_id and tid = "''t2''"
      and r = "projr (fst ?Y)" and s' = "snd ?Y"] y c yp
  have b: "open_stake_count (transactions (snd ?Y)) ''p'' = 0" by simp
  from a b c xp show ?thesis by simp
qed

text \<open>
  C2, as stated: \<open>totalStaked\<close> equals the sum of the stake amounts minus the sum of
  the amounts of the referencing unstake events. The handlers add and subtract in
  double arithmetic: after stakes of 0.1 and 0.2 that are both unstaked again, the two
  sums are equal and \<open>totalStaked\<close> is 2^-55.
\<close>

theorem totalStaked_counterexample:
  "map_option totalStaked (pools (serial_run (empty_db {alice_id}) decimal_run) ''p'')
     = Some (Fin (1 / 36028797018963968))
   \<and> staked_sum (transactions (serial_run (empty_db {alice_id}) decimal_run)) ''p'' = 3 / 10
   \<and> unstaked_sum (transactions (serial_run (empty_db {alice_id}) decimal_run)) ''p'' = 3 / 10
   \<and> Fin (1 / 36028797018963968) \<noteq> Fin (3 / 10 - 3 / 10)"
  by (simp add: decimal_run_result staked_sum_def unstaked_sum_def alice_stake_def
      alice_unstake_def demo_stake_def demo_unstake_def)

text \<open>
  C2, amended. Handled without another request overlapping it, an admitted stake of
  \<open>x\<close> takes \<open>totalStaked\<close> from \<open>T\<close> to the double sum \<open>T + x\<close>, and an admitted
  unstake of a stake of amount \<open>y\<close> takes it to the double difference \<open>T - y\<close>, or
  to 0 if that is negative. When requests are handled one at a time, none of them
  deletes a pool, and the stake requests carry whole numbers that add up to at most
  2^53, these sums and differences are exact: in every database reached from an empty
  one, each pool's \<open>totalStaked\<close> is the sum of the amounts of the pool's stake events
  minus the sum of the amounts of the unstake events that reference them.
\<close>

theorem totalStaked_follows_ledger:
  assumes "\<forall>x\<in>set rs. whole_no_delete (snd (snd x))" and "requested_total rs \<le> 2 ^ 53"
    and "s = serial_run (empty_db us) rs"
  shows "(pools s p = Some pool \<longrightarrow>
            totalStaked pool
              = Fin (staked_sum (transactions s) p - unstaked_sum (transactions s) p))
     \<and> (stakeTokens z now uuid user q (Fin x) = (Inr r, z') \<and> pools z q = Some zp
          \<and> totalStaked zp = Fin T \<longrightarrow>
          totalStaked (snd r) = Fin (double_of (double_of T + double_of x)))
     \<and> (unstakeTokens z now uuid user tid = (Inr r, z') \<and> find_stake z tid user = Some st
          \<and> amount st = Fin y \<and> pools z (poolId st) = Some zp \<and> totalStaked zp = Fin T \<longrightarrow>
          totalStaked (snd r) = Fin (max 0 (double_of (double_of T - double_of y))))"
proof (intro conjI impI)
  from assms have inv: "aggregates_ok s" by (simp add: reachable_aggregates_ok)
  show "totalStaked pool = Fin (staked_sum (transactions s) p - unstaked_sum (transactions s) p)"
    if "pools s p = Some pool"
    using inv that by (rule aggregates_total)
  show "totalStaked (snd r) = Fin (double_of (double_of T + double_of x))"
    if h: "stakeTokens z now uuid user q (Fin x) = (Inr r, z') \<and> pools z q = Some zp
          \<and> totalStaked zp = Fin T"
  proof -
    from h stakeTokens_success[of z now uuid user q "Fin x" r z']
    have "snd r = zp\<lparr>totalStaked := js_add (js_or (totalStaked zp) (Fin 0)) (Fin x),
                          updatedAt := now\<rparr>"
      by auto
    with h show ?thesis by (simp add: js_or_Fin_zero)
  qed
  show "totalStaked (snd r) = Fin (max 0 (double_of (double_of T - double_of y)))"
    if h: "unstakeTokens z now uuid user tid = (Inr r, z') \<and> find_stake z tid user = Some st
          \<and> amount st = Fin y \<and> pools z (poolId st) = Some zp \<and> totalStaked zp = Fin T"
  proof -
    from h unstakeTokens_success[of z now uuid user tid r z']
    have "snd r = zp\<lparr>totalStaked :=
          Math_max (Fin 0) (js_sub (js_or (totalStaked zp) (Fin 0)) (amount st)),
          updatedAt := now\<rparr>"
      by auto
    with h show ?thesis by (simp add: js_or_Fin_zero js_sub_Fin Math_max_Fin)
  qed
qed

theorem totalStaked_follows_ledger_witness:
  "requested_total demo_run = 15
   \<and> pools (serial_run (empty_db {alice_id}) demo_run) ''p''
       = Some (demo_pool\<lparr>totalStaked := Fin 5, updatedAt := 3\<rparr>)
   \<and> staked_sum (transactions (serial_run (empty_db {alice_id}) demo_run)) ''p'' = 15
   \<and> unstaked_sum (transactions (serial_run (empty_db {alice_id}) demo_run)) ''p'' = 10
   \<and> totalStaked (snd (projr (fst
        (stakeTokens (serial_run (empty_db {alice_id}) demo_run) 5 ''t3'' alice_id ''p'' (Fin 2)))))
       = Fin 7
   \<and> serial_run (empty_db {alice_id}) large_run = large_run_db
   \<and> find_stake large_run_db ''t2'' alice_id
       = Some (alice_stake\<lparr>transactionId := ''t2'', amount := Fin 1, timestamp := 2\<rparr>)
   \<and> pools large_run_db ''p'' = Some (demo_pool\<lparr>totalStaked := Fin 0, updatedAt := 3\<rparr>)
   \<and> double_of (double_of 0 - double_of 1) = - 1
   \<and> totalStaked (snd (projr (fst (unstakeTokens large_run_db 5 ''u2'' alice_id ''t2''))))
       = Fin 0"
proof -
  let ?s = "serial_run (empty_db {alice_id}) demo_run"
  let ?X = "stakeTokens ?s 5 ''t3'' alice_id ''p'' (Fin 2)"
  let ?Y = "unstakeTokens large_run_db 5 ''u2'' alice_id ''t2''"
  have whole: "\<forall>x\<in>set demo_run. whole_no_delete (snd (snd x))"
    by (simp add: demo_run_def)
  have total: "requested_total demo_run = 15"
    by (simp add: demo_run_def requested_total_def)
  have p: "pools ?s ''p'' = Some (demo_pool\<lparr>totalStaked := Fin 5, updatedAt := 3\<rparr>)"
    by (simp add: demo_run_result demo_run_db_def)
  have sums: "staked_sum (transactions ?s) ''p'' = 15" "unstaked_sum (transactions ?s) ''p'' = 10"
    by (simp_all add: demo_run_result demo_run_db_def staked_sum_def unstaked_sum_def
        alice_stake_def alice_unstake_def demo_stake_def demo_unstake_def)
  have x: "?X = (Inr (projr (fst ?X)), snd ?X)"
    by (simp add: demo_run_result demo_run_db_def handler_defs)
  have y: "?Y = (Inr (projr (fst ?Y)), snd ?Y)"
    by (simp add: large_run_db_def handler_defs)
  have st: "find_stake large_run_db ''t2'' alice_id
      = Some (alice_stake\<lparr>transactionId := ''t2'', amount := Fin 1, timestamp := 2\<rparr>)"
    by (simp add: large_run_db_def find_stake_def alice_stake_def demo_stake_def)
  have lp: "pools large_run_db ''p'' = Some (demo_pool\<lparr>totalStaked := Fin 0, updatedAt := 3\<rparr>)"
    by (simp add: large_run_db_def)
  have neg: "double_of (double_of 0 - double_of 1) = - 1"
    by simp
  from totalStaked_follows_ledger[OF whole _ refl, where us = "{alice_id}" and p = "''p''"
      and pool = "demo_pool\<lparr>totalStaked := Fin 5, updatedAt := 3\<rparr>" and z = ?s
      and now = 5 and uuid = "''t3''" and user = alice_id and q = "''p''" and x = 2
      and r = "projr (fst ?X)" and z' = "snd ?X"
      and zp = "demo_pool\<lparr>totalStaked := Fin 5, updatedAt := 3\<rparr>" and T = 5] total p x
  have a: "totalStaked (snd (projr (fst ?X))) = Fin 7" by (simp add: demo_pool_def)
  from totalStaked_follows_ledger[OF whole _ refl, where us = "{alice_id}"
      and z = large_run_db and now = 5 and uuid = "''u2''" and user = alice_id
      and tid = "''t2''" and r = "projr (fst ?Y)" and z' = "snd ?Y"
      and st = "alice_stake\<lparr>transactionId := ''t2'', amount := Fin 1, timestamp := 2\<rparr>"
      and y = 1 and zp = "demo_pool\<lparr>totalStaked := Fin 0, updatedAt := 3\<rparr>" and T = 0]
    total y st lp
  have b: "totalStaked (snd (projr (fst ?Y))) = Fin 0"
    by (simp add: demo_pool_def alice_stake_def demo_stake_def)
  from total p sums a b st lp neg large_run_result show ?thesis by simp
qed

end
